theory Spec2Isabelle
  imports Main "HOL-Library.Word" "HOL-Library.Multiset"
begin

section \<open>Values of the host language\<close>

text \<open>
  The panel keeps whatever \<^verbatim>\<open>JSON.parse\<close> returned: the constructor receives
  \<^verbatim>\<open>results: any[]\<close> and \<^verbatim>\<open>_loadProgress\<close> assigns \<^verbatim>\<open>loadedData\<close> to
  \<^verbatim>\<open>this._results\<close> unchecked, so the declared interface \<^verbatim>\<open>SemgrepResult\<close> is not
  enforced at run time. The state is therefore modelled as a JSON value.

  A string is a sequence of 16-bit code units. An object is the list of its own
  properties in property order, an array the list of its elements. A number is one of
  the two infinities (\<^verbatim>\<open>JSON.parse\<close> gives them for a literal beyond the range, such
  as \<^verbatim>\<open>1e999\<close>) or finite; the type of the finite numbers is a parameter, since the
  program never computes with the numbers of a finding. \<^verbatim>\<open>JSON.parse\<close> never gives
  \<^verbatim>\<open>NaN\<close> or \<^verbatim>\<open>undefined\<close>, and the program creates neither.
\<close>

type_synonym jschar = "16 word"
type_synonym jsstring = "jschar list"

definition str :: "string \<Rightarrow> jsstring" where
  "str s = map of_char s"

datatype 'n jsnumber = Finite 'n | PosInfinity | NegInfinity

datatype 'n json =
    JNull
  | JBool bool
  | JNum "'n jsnumber"
  | JStr jsstring
  | JArr "'n json list"
  | JObj "(jsstring \<times> 'n json) list"

datatype error = TypeError

text \<open>Decimal digits of an array index, as the template literal \<^verbatim>\<open>${index}\<close> prints it.\<close>

definition digit :: "nat \<Rightarrow> jschar" where
  "digit d = of_nat (48 + d)"

function dec :: "nat \<Rightarrow> jsstring" where
  "dec n = (if n < 10 then [digit n] else dec (n div 10) @ [digit (n mod 10)])"
  by pat_completeness auto
termination
  by (relation "measure id") auto

declare dec.simps [simp del]

definition digit_val :: "jschar \<Rightarrow> nat" where
  "digit_val c = unat c - 48"

definition undec :: "jsstring \<Rightarrow> nat" where
  "undec s = foldl (\<lambda>a c. 10 * a + digit_val c) 0 s"

text \<open>
  Property read \<^verbatim>\<open>v[k]\<close> for the keys the program uses (\<^verbatim>\<open>untriaged\<close>,
  \<^verbatim>\<open>issues\<close>, \<^verbatim>\<open>falsePositives\<close>, \<^verbatim>\<open>id\<close>), none of which is inherited from a
  prototype: \<open>None\<close> is \<^verbatim>\<open>undefined\<close>, reading a property of \<^verbatim>\<open>null\<close> throws.
\<close>

fun get_prop :: "'n json \<Rightarrow> jsstring \<Rightarrow> error + 'n json option" where
  "get_prop JNull k = Inl TypeError"
| "get_prop (JObj kvs) k = Inr (map_of kvs k)"
| "get_prop v k = Inr None"

text \<open>
  Writing a property whose key is not an array index: an existing property keeps its
  place and gets the new value, a new one goes to the end.
\<close>

fun put_prop :: "jsstring \<Rightarrow> 'v \<Rightarrow> (jsstring \<times> 'v) list \<Rightarrow> (jsstring \<times> 'v) list" where
  "put_prop k v [] = [(k, v)]"
| "put_prop k v ((k', v') # kvs) =
     (if k' = k then (k, v) # kvs else (k', v') # put_prop k v kvs)"

text \<open>
  The own enumerable properties that the spread \<^verbatim>\<open>{ ...r }\<close> copies: those of an object,
  the elements of an array and the code units of a string under their indices, nothing
  for \<^verbatim>\<open>null\<close>, a boolean or a number.
\<close>

fun indexed :: "nat \<Rightarrow> 'a list \<Rightarrow> (jsstring \<times> 'a) list" where
  "indexed i [] = []"
| "indexed i (x # xs) = (dec i, x) # indexed (Suc i) xs"

fun spread :: "'n json \<Rightarrow> (jsstring \<times> 'n json) list" where
  "spread (JObj kvs) = kvs"
| "spread (JArr xs) = indexed 0 xs"
| "spread (JStr s) = indexed 0 (map (\<lambda>c. JStr [c]) s)"
| "spread v = []"

section \<open>The constructor: ingestion\<close>

text \<open>
  \<^verbatim>\<open>results.map((r, index) => ({ ...r, id: `item-${index}` }))\<close>, and the object literal
  that the constructor assigns to \<^verbatim>\<open>this._results\<close>.
\<close>

definition item_id :: "nat \<Rightarrow> jsstring" where
  "item_id index = str ''item-'' @ dec index"

definition with_id :: "'n json \<Rightarrow> nat \<Rightarrow> 'n json" where
  "with_id r index = JObj (put_prop (str ''id'') (JStr (item_id index)) (spread r))"

fun map_index :: "('a \<Rightarrow> nat \<Rightarrow> 'b) \<Rightarrow> nat \<Rightarrow> 'a list \<Rightarrow> 'b list" where
  "map_index f i [] = []"
| "map_index f i (x # xs) = f x i # map_index f (Suc i) xs"

definition constructor_results :: "'n json list \<Rightarrow> 'n json" where
  "constructor_results results =
     JObj [(str ''untriaged'', JArr (map_index with_id 0 results)),
           (str ''issues'', JArr []),
           (str ''falsePositives'', JArr [])]"

section \<open>Moving a finding: \<^verbatim>\<open>_handleTriage\<close>\<close>

datatype bucket = Untriaged | Issues | FalsePositives

fun bucket_key :: "bucket \<Rightarrow> jsstring" where
  "bucket_key Untriaged = str ''untriaged''"
| "bucket_key Issues = str ''issues''"
| "bucket_key FalsePositives = str ''falsePositives''"

text \<open>
  \<^verbatim>\<open>this._results[from]\<close> followed by a method call of \<^verbatim>\<open>Array.prototype\<close>: the call
  throws unless the property holds an array (no JSON value is callable, so a property
  \<^verbatim>\<open>findIndex\<close> or \<^verbatim>\<open>push\<close> of a parsed object does not help).
\<close>

definition get_array :: "'n json \<Rightarrow> jsstring \<Rightarrow> error + 'n json list" where
  "get_array v k =
     (case get_prop v k of
        Inl e \<Rightarrow> Inl e
      | Inr (Some (JArr xs)) \<Rightarrow> Inr xs
      | Inr _ \<Rightarrow> Inl TypeError)"

text \<open>
  \<^verbatim>\<open>splice\<close> and \<^verbatim>\<open>push\<close> change the array that the property refers to; the object
  keeps its properties and their order. The three arrays of a state are distinct
  objects (the constructor and \<^verbatim>\<open>JSON.parse\<close> create a fresh array for each), so
  replacing the value under the key is what the mutation does.
\<close>

fun set_array :: "'n json \<Rightarrow> jsstring \<Rightarrow> 'n json list \<Rightarrow> 'n json" where
  "set_array (JObj kvs) k xs = JObj (put_prop k (JArr xs) kvs)"
| "set_array v k xs = v"

text \<open>The callback \<^verbatim>\<open>r => r.id === id\<close>, where \<^verbatim>\<open>id\<close> is a string.\<close>

definition id_is :: "jsstring \<Rightarrow> 'n json \<Rightarrow> error + bool" where
  "id_is id' r =
     (case get_prop r (str ''id'') of
        Inl e \<Rightarrow> Inl e
      | Inr v \<Rightarrow> Inr (v = Some (JStr id')))"

text \<open>\<^verbatim>\<open>findIndex\<close>: the first index whose element satisfies the callback, \<open>None\<close> for -1.\<close>

fun findIndex :: "('a \<Rightarrow> error + bool) \<Rightarrow> 'a list \<Rightarrow> error + nat option" where
  "findIndex p [] = Inr None"
| "findIndex p (x # xs) =
     (case p x of
        Inl e \<Rightarrow> Inl e
      | Inr True \<Rightarrow> Inr (Some 0)
      | Inr False \<Rightarrow>
          (case findIndex p xs of
             Inl e \<Rightarrow> Inl e
           | Inr None \<Rightarrow> Inr None
           | Inr (Some i) \<Rightarrow> Inr (Some (Suc i))))"

text \<open>
  The handler either returns, with the state it leaves and the payload of the
  \<^verbatim>\<open>updateView\<close> message if it posted one, or throws, with the state it leaves.
\<close>

datatype 'n outcome =
    Returned "'n json" "'n json option"
  | Threw error "'n json"

fun results_after :: "'n outcome \<Rightarrow> 'n json" where
  "results_after (Returned s p) = s"
| "results_after (Threw e s) = s"

fun thrown :: "'n outcome \<Rightarrow> error option" where
  "thrown (Returned s p) = None"
| "thrown (Threw e s) = Some e"

fun posted :: "'n outcome \<Rightarrow> 'n json option" where
  "posted (Returned s p) = p"
| "posted (Threw e s) = None"

definition handleTriage :: "'n json \<Rightarrow> jsstring \<Rightarrow> bucket \<Rightarrow> bucket \<Rightarrow> 'n outcome" where
  "handleTriage results id' from to =
     (case get_array results (bucket_key from) of
        Inl e \<Rightarrow> Threw e results
      | Inr xs \<Rightarrow>
          (case findIndex (id_is id') xs of
             Inl e \<Rightarrow> Threw e results
           | Inr None \<Rightarrow> Returned results None
           | Inr (Some index) \<Rightarrow>
               (let item = xs ! index;
                    results1 = set_array results (bucket_key from)
                                 (take index xs @ drop (Suc index) xs)
                in case get_array results1 (bucket_key to) of
                     Inl e \<Rightarrow> Threw e results1
                   | Inr ys \<Rightarrow>
                       (let results2 = set_array results1 (bucket_key to) (ys @ [item])
                        in Returned results2 (Some results2)))))"

text \<open>A sequence of \<^verbatim>\<open>triage\<close> messages, each handled to completion before the next.\<close>

fun handleTriages :: "'n json \<Rightarrow> (jsstring \<times> bucket \<times> bucket) list \<Rightarrow> 'n json" where
  "handleTriages results [] = results"
| "handleTriages results ((id', from, to) # ms) =
     handleTriages (results_after (handleTriage results id' from to)) ms"

section \<open>Triage states\<close>

text \<open>
  The content of a bucket (empty when the property is not an array), the findings of
  all three buckets, and the value of the \<^verbatim>\<open>id\<close> property of a finding.
\<close>

definition bucket_items :: "'n json \<Rightarrow> bucket \<Rightarrow> 'n json list" where
  "bucket_items s b = (case get_array s (bucket_key b) of Inr xs \<Rightarrow> xs | Inl e \<Rightarrow> [])"

definition all_findings :: "'n json \<Rightarrow> 'n json list" where
  "all_findings s =
     bucket_items s Untriaged @ bucket_items s Issues @ bucket_items s FalsePositives"

fun is_finding :: "'n json \<Rightarrow> bool" where
  "is_finding (JObj kvs) = True"
| "is_finding v = False"

fun finding_id :: "'n json \<Rightarrow> 'n json option" where
  "finding_id (JObj kvs) = map_of kvs (str ''id'')"
| "finding_id v = None"

fun field :: "'n json \<Rightarrow> jsstring \<Rightarrow> 'n json option" where
  "field (JObj kvs) k = map_of kvs k"
| "field v k = None"

definition has_id :: "jsstring \<Rightarrow> 'n json \<Rightarrow> bool" where
  "has_id id' r = (finding_id r = Some (JStr id'))"

text \<open>
  A triage state: an object whose three bucket properties are arrays of finding
  objects. The partition invariant adds that no two findings, in the same or in
  different buckets, have the same id.
\<close>

definition is_bucket :: "'n json \<Rightarrow> bucket \<Rightarrow> bool" where
  "is_bucket s b =
     (case get_array s (bucket_key b) of Inr xs \<Rightarrow> list_all is_finding xs | Inl e \<Rightarrow> False)"

definition triage_state :: "'n json \<Rightarrow> bool" where
  "triage_state s = (is_bucket s Untriaged \<and> is_bucket s Issues \<and> is_bucket s FalsePositives)"

definition partition_inv :: "'n json \<Rightarrow> bool" where
  "partition_inv s = (triage_state s \<and> distinct (map finding_id (all_findings s)))"

section \<open>The extension host: opening, saving and loading\<close>

text \<open>
  What the handlers change: the \<^verbatim>\<open>_results\<close> of \<^verbatim>\<open>SemgrepResultsPanel.currentPanel\<close>
  (\<open>None\<close> while there is no panel), the messages shown to the user, the payloads of
  the \<^verbatim>\<open>updateView\<close> messages posted to the display, and the files. Reading a file
  gives its text or fails with a message; writing one may fail with a message.

  \<^verbatim>\<open>JSON.parse\<close> and \<^verbatim>\<open>JSON.stringify\<close> are parameters \<open>parse\<close> and
  \<open>stringify\<close> of the handlers; \<open>Inl\<close> carries the message of the exception.
\<close>

type_synonym uri = jsstring

datatype notice = ErrorMessage jsstring | InformationMessage jsstring

record 'n host =
  currentPanel :: "'n json option"
  window :: "notice list"
  webview :: "'n json list"
  readFile :: "uri \<Rightarrow> jsstring + jsstring"
  writeError :: "uri \<Rightarrow> jsstring option"

definition showErrorMessage :: "jsstring \<Rightarrow> 'n host \<Rightarrow> 'n host" where
  "showErrorMessage m h = h\<lparr>window := window h @ [ErrorMessage m]\<rparr>"

definition showInformationMessage :: "jsstring \<Rightarrow> 'n host \<Rightarrow> 'n host" where
  "showInformationMessage m h = h\<lparr>window := window h @ [InformationMessage m]\<rparr>"

definition postMessage :: "'n json \<Rightarrow> 'n host \<Rightarrow> 'n host" where
  "postMessage d h = h\<lparr>webview := webview h @ [d]\<rparr>"

definition writeFile :: "uri \<Rightarrow> jsstring \<Rightarrow> 'n host \<Rightarrow> jsstring + 'n host" where
  "writeFile u content h =
     (case writeError h u of
        Some m \<Rightarrow> Inl m
      | None \<Rightarrow> Inr (h\<lparr>readFile := (readFile h)(u := Inr content)\<rparr>))"

text \<open>
  \<^verbatim>\<open>createOrShow\<close>: with or without a panel already open, \<^verbatim>\<open>currentPanel\<close> becomes a
  new instance, whose constructor builds \<^verbatim>\<open>_results\<close> from the array.
\<close>

definition createOrShow :: "'n json list \<Rightarrow> 'n host \<Rightarrow> 'n host" where
  "createOrShow results h = h\<lparr>currentPanel := Some (constructor_results results)\<rparr>"

text \<open>
  The test \<^verbatim>\<open>resultsJson && Array.isArray(resultsJson.results)\<close>: the array when it
  holds. A number is falsy when it is zero (negative zero is not told apart here: the
  test treats every number alike, since no number has a property \<^verbatim>\<open>results\<close>).
\<close>

fun truthy :: "'n::zero json \<Rightarrow> bool" where
  "truthy JNull = False"
| "truthy (JBool b) = b"
| "truthy (JNum n) = (n \<noteq> Finite 0)"
| "truthy (JStr s) = (s \<noteq> [])"
| "truthy v = True"

definition results_array :: "'n::zero json \<Rightarrow> 'n json list option" where
  "results_array resultsJson =
     (if truthy resultsJson then
        (case get_prop resultsJson (str ''results'') of
           Inr (Some (JArr rs)) \<Rightarrow> Some rs
         | _ \<Rightarrow> None)
      else None)"

definition invalid_results_format :: jsstring where
  "invalid_results_format =
     str ''Invalid Semgrep results format: '' @ [34] @ str ''results'' @ [34] @
     str '' array not found.''"

text \<open>
  The command \<^verbatim>\<open>semgrep-triage.openResults\<close>; \<open>picked\<close> is what the file dialog
  returned.
\<close>

definition openResults ::
    "(jsstring \<Rightarrow> jsstring + 'n::zero json) \<Rightarrow> uri list option \<Rightarrow> 'n host \<Rightarrow> 'n host" where
  "openResults parse picked h =
     (case picked of
        None \<Rightarrow> h
      | Some [] \<Rightarrow> h
      | Some (u # us) \<Rightarrow>
          (case readFile h u of
             Inl m \<Rightarrow> showErrorMessage (str ''Failed to read or parse file: '' @ m) h
           | Inr content \<Rightarrow>
               (case parse content of
                  Inl m \<Rightarrow> showErrorMessage (str ''Failed to read or parse file: '' @ m) h
                | Inr resultsJson \<Rightarrow>
                    (case results_array resultsJson of
                       Some rs \<Rightarrow> createOrShow rs h
                     | None \<Rightarrow> showErrorMessage invalid_results_format h))))"

definition openEmpty :: "'n host \<Rightarrow> 'n host" where
  "openEmpty h = createOrShow [] h"

text \<open>
  \<^verbatim>\<open>_saveProgress(data)\<close>: \<open>dialog\<close> is the outcome of the save dialog, a rejection
  or the uri the user chose, if any.
\<close>

definition saveProgress ::
    "('n json \<Rightarrow> jsstring) \<Rightarrow> jsstring + uri option \<Rightarrow> 'n json \<Rightarrow> 'n host \<Rightarrow> 'n host" where
  "saveProgress stringify dialog data h =
     (case dialog of
        Inl m \<Rightarrow> showErrorMessage (str ''Failed to save progress: '' @ m) h
      | Inr None \<Rightarrow> h
      | Inr (Some fileUri) \<Rightarrow>
          (case writeFile fileUri (stringify data) h of
             Inl m \<Rightarrow> showErrorMessage (str ''Failed to save progress: '' @ m) h
           | Inr h' \<Rightarrow>
               showInformationMessage (str ''Semgrep triage progress saved successfully!'') h'))"

text \<open>
  \<^verbatim>\<open>_loadProgress\<close>. The source's validation is
  \<^verbatim>\<open>true || (loadedData.untriaged && loadedData.issues && loadedData.falsePositives)\<close>;
  its right operand is \<open>structure_ok\<close>.
\<close>

definition structure_ok :: "'n::zero json \<Rightarrow> bool" where
  "structure_ok loadedData =
     (case get_prop loadedData (str ''untriaged'') of
        Inr (Some a) \<Rightarrow>
          truthy a \<and>
          (case get_prop loadedData (str ''issues'') of
             Inr (Some b) \<Rightarrow>
               truthy b \<and>
               (case get_prop loadedData (str ''falsePositives'') of
                  Inr (Some c) \<Rightarrow> truthy c
                | _ \<Rightarrow> False)
           | _ \<Rightarrow> False)
      | _ \<Rightarrow> False)"

definition loadProgress ::
    "(jsstring \<Rightarrow> jsstring + 'n::zero json) \<Rightarrow> jsstring + uri list option \<Rightarrow> 'n host \<Rightarrow> 'n host"
  where
  "loadProgress parse dialog h =
     (case dialog of
        Inl m \<Rightarrow> showErrorMessage (str ''Failed to load progress: '' @ m) h
      | Inr None \<Rightarrow> h
      | Inr (Some []) \<Rightarrow> h
      | Inr (Some (u # us)) \<Rightarrow>
          (case readFile h u of
             Inl m \<Rightarrow> showErrorMessage (str ''Failed to load progress: '' @ m) h
           | Inr content \<Rightarrow>
               (case parse content of
                  Inl m \<Rightarrow> showErrorMessage (str ''Failed to load progress: '' @ m) h
                | Inr loadedData \<Rightarrow>
                    (if True \<or> structure_ok loadedData then
                       showInformationMessage
                         (str ''Semgrep triage progress loaded successfully!'')
                         (postMessage loadedData (h\<lparr>currentPanel := Some loadedData\<rparr>))
                     else showErrorMessage (str ''Invalid progress file structure.'') h))))"

text \<open>
  \<^verbatim>\<open>_goToLocation(data)\<close>: opening and showing the document either works or throws;
  \<open>opened\<close> is \<open>False\<close> when it throws.
\<close>

definition goToLocation :: "bool \<Rightarrow> jsstring \<Rightarrow> 'n host \<Rightarrow> 'n host" where
  "goToLocation opened path h =
     (if opened then h
      else showErrorMessage
             (str ''Could not open file: '' @ path @ str ''. (Is the path correct?)'') h)"

section \<open>The text of a state: \<^verbatim>\<open>JSON.stringify\<close>\<close>

text \<open>
  \<^verbatim>\<open>_saveProgress\<close> writes \<^verbatim>\<open>JSON.stringify(data, null, 2)\<close>. The definitions follow
  the operations of ECMA-262: \<^verbatim>\<open>QuoteJSONString\<close> with \<^verbatim>\<open>UnicodeEscape\<close> (a lone
  surrogate and a control character are escaped, a surrogate pair is written as it is),
  and the serialization of a value at an indentation, with a gap of two spaces. A finite
  number is written by the platform's \<^verbatim>\<open>Number::toString\<close>, the parameter \<open>N\<close>; an
  infinite one is written as \<^verbatim>\<open>null\<close>.
\<close>

definition hex_digit :: "nat \<Rightarrow> jschar" where
  "hex_digit d = (if d < 10 then of_nat (48 + d) else of_nat (87 + d))"

definition UnicodeEscape :: "jschar \<Rightarrow> jsstring" where
  "UnicodeEscape c =
     [0x5C, 0x75, hex_digit (unat c div 4096), hex_digit (unat c div 256 mod 16),
      hex_digit (unat c div 16 mod 16), hex_digit (unat c mod 16)]"

definition is_leading :: "jschar \<Rightarrow> bool" where
  "is_leading c = (0xD800 \<le> c \<and> c \<le> 0xDBFF)"

definition is_trailing :: "jschar \<Rightarrow> bool" where
  "is_trailing c = (0xDC00 \<le> c \<and> c \<le> 0xDFFF)"

fun quote_units :: "jsstring \<Rightarrow> jsstring" where
  "quote_units [] = []"
| "quote_units (c # cs) =
     (if c = 0x08 then [0x5C, 0x62] @ quote_units cs
      else if c = 0x09 then [0x5C, 0x74] @ quote_units cs
      else if c = 0x0A then [0x5C, 0x6E] @ quote_units cs
      else if c = 0x0C then [0x5C, 0x66] @ quote_units cs
      else if c = 0x0D then [0x5C, 0x72] @ quote_units cs
      else if c = 0x22 then [0x5C, 0x22] @ quote_units cs
      else if c = 0x5C then [0x5C, 0x5C] @ quote_units cs
      else if c < 0x20 then UnicodeEscape c @ quote_units cs
      else if is_leading c then
        (case cs of
           d # ds \<Rightarrow> if is_trailing d then c # d # quote_units ds
                     else UnicodeEscape c @ quote_units cs
         | [] \<Rightarrow> UnicodeEscape c)
      else if is_trailing c then UnicodeEscape c @ quote_units cs
      else c # quote_units cs)"

definition QuoteJSONString :: "jsstring \<Rightarrow> jsstring" where
  "QuoteJSONString s = [0x22] @ quote_units s @ [0x22]"

definition gap :: jsstring where
  "gap = [0x20, 0x20]"

fun serialize :: "('n \<Rightarrow> jsstring) \<Rightarrow> jsstring \<Rightarrow> 'n json \<Rightarrow> jsstring"
  and serialize_elements :: "('n \<Rightarrow> jsstring) \<Rightarrow> jsstring \<Rightarrow> 'n json list \<Rightarrow> jsstring"
  and serialize_members :: "('n \<Rightarrow> jsstring) \<Rightarrow> jsstring \<Rightarrow> (jsstring \<times> 'n json) list \<Rightarrow> jsstring"
  where
  "serialize N ind JNull = str ''null''"
| "serialize N ind (JBool b) = (if b then str ''true'' else str ''false'')"
| "serialize N ind (JNum n) = (case n of Finite x \<Rightarrow> N x | _ \<Rightarrow> str ''null'')"
| "serialize N ind (JStr s) = QuoteJSONString s"
| "serialize N ind (JArr xs) =
     (if xs = [] then str ''[]''
      else [0x5B, 0x0A] @ (ind @ gap) @ serialize_elements N (ind @ gap) xs @ [0x0A] @ ind @ [0x5D])"
| "serialize N ind (JObj kvs) =
     (if kvs = [] then str ''{}''
      else [0x7B, 0x0A] @ (ind @ gap) @ serialize_members N (ind @ gap) kvs @ [0x0A] @ ind @ [0x7D])"
| "serialize_elements N ind [] = []"
| "serialize_elements N ind (x # xs) =
     serialize N ind x @ (if xs = [] then [] else [0x2C, 0x0A] @ ind @ serialize_elements N ind xs)"
| "serialize_members N ind [] = []"
| "serialize_members N ind ((k, v) # kvs) =
     QuoteJSONString k @ [0x3A, 0x20] @ serialize N ind v @
     (if kvs = [] then [] else [0x2C, 0x0A] @ ind @ serialize_members N ind kvs)"

definition JSON_stringify :: "('n \<Rightarrow> jsstring) \<Rightarrow> 'n json \<Rightarrow> jsstring" where
  "JSON_stringify N v = serialize N [] v"


section \<open>The state of a text: \<^verbatim>\<open>JSON.parse\<close>\<close>

text \<open>
  The text is cut into the tokens of the JSON grammar, and a value is read from the
  tokens. A number token is the longest run of the characters a number is made of,
  which must be a number of the grammar; its value is the platform's conversion of the
  literal, the parameter \<open>N\<close> of the parser (\<open>T\<close> in the theorems). A word is the longest
  run of small letters.
\<close>

definition is_digit :: "jschar \<Rightarrow> bool" where
  "is_digit c = (0x30 \<le> c \<and> c \<le> 0x39)"

definition hex_val :: "jschar \<Rightarrow> nat option" where
  "hex_val c =
     (if 0x30 \<le> c \<and> c \<le> 0x39 then Some (unat c - 48)
      else if 0x61 \<le> c \<and> c \<le> 0x66 then Some (unat c - 87)
      else if 0x41 \<le> c \<and> c \<le> 0x46 then Some (unat c - 55)
      else None)"

definition hex4 :: "jschar \<Rightarrow> jschar \<Rightarrow> jschar \<Rightarrow> jschar \<Rightarrow> jschar option" where
  "hex4 a b c d =
     (case (hex_val a, hex_val b, hex_val c, hex_val d) of
        (Some h3, Some h2, Some h1, Some h0) \<Rightarrow> Some (of_nat (((h3 * 16 + h2) * 16 + h1) * 16 + h0))
      | _ \<Rightarrow> None)"

definition simple_escape :: "jschar \<Rightarrow> jschar option" where
  "simple_escape e =
     (if e = 0x22 then Some 0x22
      else if e = 0x5C then Some 0x5C
      else if e = 0x2F then Some 0x2F
      else if e = 0x62 then Some 0x08
      else if e = 0x66 then Some 0x0C
      else if e = 0x6E then Some 0x0A
      else if e = 0x72 then Some 0x0D
      else if e = 0x74 then Some 0x09
      else None)"

fun lex_string :: "jsstring \<Rightarrow> (jsstring \<times> jsstring) option" where
  "lex_string [] = None"
| "lex_string (c # cs) =
     (if c = 0x22 then Some ([], cs)
      else if c = 0x5C then
        (case cs of
           [] \<Rightarrow> None
         | e # es \<Rightarrow>
             if e = 0x75 then
               (case es of
                  a # b # c' # d # rest \<Rightarrow>
                    (case hex4 a b c' d of
                       None \<Rightarrow> None
                     | Some u \<Rightarrow> map_option (\<lambda>(s, r). (u # s, r)) (lex_string rest))
                | _ \<Rightarrow> None)
             else
               (case simple_escape e of
                  None \<Rightarrow> None
                | Some u \<Rightarrow> map_option (\<lambda>(s, r). (u # s, r)) (lex_string es)))
      else if c < 0x20 then None
      else map_option (\<lambda>(s, r). (c # s, r)) (lex_string cs))"

datatype token =
    LBrace | RBrace | LBracket | RBracket | Colon | Comma
  | TString jsstring | TNumber jsstring | TTrue | TFalse | TNull

definition is_ws :: "jschar \<Rightarrow> bool" where
  "is_ws c = (c = 0x09 \<or> c = 0x0A \<or> c = 0x0D \<or> c = 0x20)"

definition is_number_char :: "jschar \<Rightarrow> bool" where
  "is_number_char c = (is_digit c \<or> c = 0x2B \<or> c = 0x2D \<or> c = 0x2E \<or> c = 0x45 \<or> c = 0x65)"

definition is_letter :: "jschar \<Rightarrow> bool" where
  "is_letter c = (0x61 \<le> c \<and> c \<le> 0x7A)"

definition valid_exp :: "jsstring \<Rightarrow> bool" where
  "valid_exp s =
     (case s of
        [] \<Rightarrow> True
      | e # r \<Rightarrow>
          (e = 0x45 \<or> e = 0x65) \<and>
          (case r of
             [] \<Rightarrow> False
           | g # ds \<Rightarrow>
               if g = 0x2B \<or> g = 0x2D then ds \<noteq> [] \<and> list_all is_digit ds
               else list_all is_digit r))"

definition valid_frac :: "jsstring \<Rightarrow> bool" where
  "valid_frac s =
     (case s of
        [] \<Rightarrow> True
      | p # r \<Rightarrow>
          if p = 0x2E then takeWhile is_digit r \<noteq> [] \<and> valid_exp (dropWhile is_digit r)
          else valid_exp s)"

definition valid_int :: "jsstring \<Rightarrow> bool" where
  "valid_int s =
     (case s of
        [] \<Rightarrow> False
      | d # r \<Rightarrow>
          if d = 0x30 then valid_frac r
          else if 0x31 \<le> d \<and> d \<le> 0x39 then valid_frac (dropWhile is_digit r)
          else False)"

definition valid_number :: "jsstring \<Rightarrow> bool" where
  "valid_number s =
     (case s of
        [] \<Rightarrow> False
      | m # r \<Rightarrow> if m = 0x2D then valid_int r else valid_int s)"

definition keyword :: "jsstring \<Rightarrow> token option" where
  "keyword w =
     (if w = str ''null'' then Some TNull
      else if w = str ''true'' then Some TTrue
      else if w = str ''false'' then Some TFalse
      else None)"

function lex :: "jsstring \<Rightarrow> token list option" where
  "lex [] = Some []"
| "lex (c # cs) =
     (if is_ws c then lex cs
      else if c = 0x7B then map_option ((#) LBrace) (lex cs)
      else if c = 0x7D then map_option ((#) RBrace) (lex cs)
      else if c = 0x5B then map_option ((#) LBracket) (lex cs)
      else if c = 0x5D then map_option ((#) RBracket) (lex cs)
      else if c = 0x3A then map_option ((#) Colon) (lex cs)
      else if c = 0x2C then map_option ((#) Comma) (lex cs)
      else if c = 0x22 then
        (case lex_string cs of
           None \<Rightarrow> None
         | Some (s, rest) \<Rightarrow> map_option ((#) (TString s)) (lex rest))
      else if is_number_char c then
        (if valid_number (c # takeWhile is_number_char cs)
         then map_option ((#) (TNumber (c # takeWhile is_number_char cs)))
                (lex (dropWhile is_number_char cs))
         else None)
      else if is_letter c then
        (case keyword (c # takeWhile is_letter cs) of
           None \<Rightarrow> None
         | Some t \<Rightarrow> map_option ((#) t) (lex (dropWhile is_letter cs)))
      else None)"
  by pat_completeness auto
termination
proof (relation "measure length")
  show "wf (measure length)"
    by simp
next
  fix c cs x2 x y
  assume "lex_string cs = Some x2" and "(x, y) = x2"
  then have "lex_string cs = Some (x, y)"
    by simp
  moreover have "length rest < length t" if "lex_string t = Some (s, rest)" for t s rest
    using that
  proof (induction t arbitrary: s rest rule: lex_string.induct)
    case 1
    then show ?case by simp
  next
    case (2 c cs)
    then show ?case
      by (fastforce split: if_splits list.splits option.splits)
  qed
  ultimately have "length y < length cs"
    by blast
  then show "(y, c # cs) \<in> measure length"
    by simp
qed (simp_all add: length_dropWhile_le less_Suc_eq_le)

text \<open>
  A parsed object gets its properties one by one (\<^verbatim>\<open>CreateDataProperty\<close>). The order
  of the properties of an object is: the array indices (the decimal numerals of the
  numbers below \<open>2^32 - 1\<close>) in ascending order, then the other keys in the order of
  their creation; a key that is written twice keeps its place and gets the later value.
\<close>

definition is_array_index :: "jsstring \<Rightarrow> bool" where
  "is_array_index k = (k = dec (undec k) \<and> undec k < 4294967295)"

fun insert_index :: "jsstring \<Rightarrow> 'v \<Rightarrow> (jsstring \<times> 'v) list \<Rightarrow> (jsstring \<times> 'v) list" where
  "insert_index k v [] = [(k, v)]"
| "insert_index k v ((k', v') # kvs) =
     (if is_array_index k' \<and> undec k' < undec k then (k', v') # insert_index k v kvs
      else (k, v) # (k', v') # kvs)"

definition CreateDataProperty ::
    "jsstring \<Rightarrow> 'v \<Rightarrow> (jsstring \<times> 'v) list \<Rightarrow> (jsstring \<times> 'v) list" where
  "CreateDataProperty k v kvs =
     (if is_array_index k \<and> k \<notin> fst ` set kvs then insert_index k v kvs
      else put_prop k v kvs)"

text \<open>
  The parser descends with a fuel that \<^verbatim>\<open>JSON_parse\<close> sets to the number of tokens;
  every call consumes a token before it descends, so the fuel never runs out before the
  tokens do.
\<close>

fun parse_value :: "(jsstring \<Rightarrow> 'n jsnumber) \<Rightarrow> nat \<Rightarrow> token list \<Rightarrow> ('n json \<times> token list) option"
  and parse_elements ::
    "(jsstring \<Rightarrow> 'n jsnumber) \<Rightarrow> nat \<Rightarrow> token list \<Rightarrow> ('n json list \<times> token list) option"
  and parse_members ::
    "(jsstring \<Rightarrow> 'n jsnumber) \<Rightarrow> nat \<Rightarrow> (jsstring \<times> 'n json) list \<Rightarrow> token list \<Rightarrow>
       ((jsstring \<times> 'n json) list \<times> token list) option"
  where
  "parse_value N 0 ts = None"
| "parse_value N (Suc f) ts =
     (case ts of
        TNull # r \<Rightarrow> Some (JNull, r)
      | TTrue # r \<Rightarrow> Some (JBool True, r)
      | TFalse # r \<Rightarrow> Some (JBool False, r)
      | TNumber lit # r \<Rightarrow> Some (JNum (N lit), r)
      | TString s # r \<Rightarrow> Some (JStr s, r)
      | LBracket # RBracket # r \<Rightarrow> Some (JArr [], r)
      | LBracket # r \<Rightarrow> map_option (\<lambda>(xs, r'). (JArr xs, r')) (parse_elements N f r)
      | LBrace # RBrace # r \<Rightarrow> Some (JObj [], r)
      | LBrace # r \<Rightarrow> map_option (\<lambda>(kvs, r'). (JObj kvs, r')) (parse_members N f [] r)
      | _ \<Rightarrow> None)"
| "parse_elements N 0 ts = None"
| "parse_elements N (Suc f) ts =
     (case parse_value N f ts of
        None \<Rightarrow> None
      | Some (x, r) \<Rightarrow>
          (case r of
             Comma # r' \<Rightarrow> map_option (\<lambda>(xs, r''). (x # xs, r'')) (parse_elements N f r')
           | RBracket # r' \<Rightarrow> Some ([x], r')
           | _ \<Rightarrow> None))"
| "parse_members N 0 obj ts = None"
| "parse_members N (Suc f) obj ts =
     (case ts of
        TString k # Colon # r \<Rightarrow>
          (case parse_value N f r of
             None \<Rightarrow> None
           | Some (v, r') \<Rightarrow>
               (case r' of
                  Comma # r'' \<Rightarrow> parse_members N f (CreateDataProperty k v obj) r''
                | RBrace # r'' \<Rightarrow> Some (CreateDataProperty k v obj, r'')
                | _ \<Rightarrow> None))
      | _ \<Rightarrow> None)"

definition syntax_error :: jsstring where
  "syntax_error = str ''Unexpected token in JSON''"

definition JSON_parse :: "(jsstring \<Rightarrow> 'n jsnumber) \<Rightarrow> jsstring \<Rightarrow> jsstring + 'n json" where
  "JSON_parse N text =
     (case lex text of
        None \<Rightarrow> Inl syntax_error
      | Some ts \<Rightarrow>
          (case parse_value N (length ts) ts of
             Some (v, []) \<Rightarrow> Inr v
           | _ \<Rightarrow> Inl syntax_error))"

section \<open>Values that a text carries\<close>

text \<open>
  \<open>js_ordered\<close> says that a list of keys is in the property order of an object, which
  the values of the running program always are. \<open>restorable\<close> says of a value that its
  objects are so ordered and that each of its numbers is finite, is written as a number
  of the JSON grammar and is read back from what is written. By ECMA-262 every finite
  number but negative zero is read back from its decimal form.
\<close>

definition js_ordered :: "jsstring list \<Rightarrow> bool" where
  "js_ordered ks =
     (distinct ks \<and>
      sorted_wrt (<) (map undec (takeWhile is_array_index ks)) \<and>
      list_all (\<lambda>k. \<not> is_array_index k) (dropWhile is_array_index ks))"

fun restorable :: "('n \<Rightarrow> jsstring) \<Rightarrow> (jsstring \<Rightarrow> 'n jsnumber) \<Rightarrow> 'n json \<Rightarrow> bool"
  and restorable_list :: "('n \<Rightarrow> jsstring) \<Rightarrow> (jsstring \<Rightarrow> 'n jsnumber) \<Rightarrow> 'n json list \<Rightarrow> bool"
  and restorable_members ::
    "('n \<Rightarrow> jsstring) \<Rightarrow> (jsstring \<Rightarrow> 'n jsnumber) \<Rightarrow> (jsstring \<times> 'n json) list \<Rightarrow> bool"
  where
  "restorable N T (JNum n) =
     (case n of Finite x \<Rightarrow> valid_number (N x) \<and> T (N x) = Finite x | _ \<Rightarrow> False)"
| "restorable N T (JArr xs) = restorable_list N T xs"
| "restorable N T (JObj kvs) = (js_ordered (map fst kvs) \<and> restorable_members N T kvs)"
| "restorable N T JNull = True"
| "restorable N T (JBool b) = True"
| "restorable N T (JStr s) = True"
| "restorable_list N T [] = True"
| "restorable_list N T (x # xs) = (restorable N T x \<and> restorable_list N T xs)"
| "restorable_members N T [] = True"
| "restorable_members N T ((k, v) # kvs) = (restorable N T v \<and> restorable_members N T kvs)"

text \<open>The tokens of the text of a value, and a text that cannot prolong a token before it.\<close>

fun toks :: "('n \<Rightarrow> jsstring) \<Rightarrow> 'n json \<Rightarrow> token list"
  and toks_elems :: "('n \<Rightarrow> jsstring) \<Rightarrow> 'n json list \<Rightarrow> token list"
  and toks_members :: "('n \<Rightarrow> jsstring) \<Rightarrow> (jsstring \<times> 'n json) list \<Rightarrow> token list"
  where
  "toks N JNull = [TNull]"
| "toks N (JBool b) = [if b then TTrue else TFalse]"
| "toks N (JNum n) = (case n of Finite x \<Rightarrow> [TNumber (N x)] | _ \<Rightarrow> [TNull])"
| "toks N (JStr s) = [TString s]"
| "toks N (JArr xs) = LBracket # toks_elems N xs @ [RBracket]"
| "toks N (JObj kvs) = LBrace # toks_members N kvs @ [RBrace]"
| "toks_elems N [] = []"
| "toks_elems N (x # xs) = toks N x @ (if xs = [] then [] else Comma # toks_elems N xs)"
| "toks_members N [] = []"
| "toks_members N ((k, v) # kvs) =
     TString k # Colon # toks N v @ (if kvs = [] then [] else Comma # toks_members N kvs)"

definition delimited :: "jsstring \<Rightarrow> bool" where
  "delimited r = (case r of [] \<Rightarrow> True | c # cs \<Rightarrow> \<not> is_number_char c \<and> \<not> is_letter c)"

section \<open>Example data\<close>

text \<open>
  Two scanner results, the state the constructor builds from them, and that state after
  \<^verbatim>\<open>item-0\<close> was marked as an issue.
\<close>

definition result_a :: "nat json" where
  "result_a =
     JObj [(str ''check_id'', JStr (str ''rules.eval'')),
           (str ''path'', JStr (str ''src/a.ts'')),
           (str ''start'', JObj [(str ''line'', JNum (Finite 3)), (str ''col'', JNum (Finite 5))])]"

definition result_b :: "nat json" where
  "result_b =
     JObj [(str ''check_id'', JStr (str ''rules.exec'')),
           (str ''path'', JStr (str ''src/b.ts'')),
           (str ''start'', JObj [(str ''line'', JNum (Finite 8)), (str ''col'', JNum (Finite 1))])]"

definition fresh_state :: "nat json" where
  "fresh_state = constructor_results [result_a, result_b]"

definition triaged_state :: "nat json" where
  "triaged_state =
     results_after (handleTriage fresh_state (str ''item-0'') Untriaged Issues)"

text \<open>
  Number functions for the examples, whose finite numbers are naturals: a number is
  written in decimal, and a literal of digits is read as its value. For the literal
  \<^verbatim>\<open>1e999\<close>, which is beyond the range of the numbers, \<^verbatim>\<open>JSON.parse\<close> gives
  infinity; the example reader gives it for every literal that is not made of digits.
\<close>

definition example_toString :: "nat \<Rightarrow> jsstring" where
  "example_toString n = dec n"

definition example_toNumber :: "jsstring \<Rightarrow> nat jsnumber" where
  "example_toNumber lit = (if list_all is_digit lit then Finite (undec lit) else PosInfinity)"

text \<open>
  A scan report with a line number beyond the range, the result \<^verbatim>\<open>JSON.parse\<close> reads
  from it, and that result as a progress file gives it back.
\<close>

definition overflow_report :: jsstring where
  "overflow_report =
     str ''{'' @ [0x22] @ str ''results'' @ [0x22] @ str '': [{'' @ [0x22] @ str ''line'' @ [0x22] @
     str '': 1e999}]}''"

definition overflow_result :: "nat json" where
  "overflow_result = JObj [(str ''line'', JNum PosInfinity)]"

definition overflow_read_back :: "nat json" where
  "overflow_read_back = JObj [(str ''line'', JNull)]"

text \<open>
  A host with the triaged state in its panel and three files: a scan report without a
  \<^verbatim>\<open>results\<close> array, the report with the line number beyond the range, and a file
  that cannot be read or written.
\<close>

definition report_uri :: uri where
  "report_uri = str ''/work/report.json''"

definition missing_uri :: uri where
  "missing_uri = str ''/work/missing.json''"

definition overflow_uri :: uri where
  "overflow_uri = str ''/work/overflow.json''"

definition busy_host :: "nat host" where
  "busy_host =
     \<lparr>currentPanel = Some triaged_state, window = [], webview = [],
      readFile = (\<lambda>u. if u = report_uri then Inr (str ''{}'')
                      else if u = overflow_uri then Inr overflow_report
                      else Inl (str ''ENOENT'')),
      writeError = (\<lambda>u. if u = missing_uri then Some (str ''EACCES'') else None)\<rparr>"

section \<open>Basic facts\<close>

lemma bucket_key_inj [simp]: "bucket_key a = bucket_key b \<longleftrightarrow> a = b"
  by (cases a; cases b) (simp_all add: str_def)

lemma id_key_not_bucket [simp]: "str ''id'' \<noteq> bucket_key b" "bucket_key b \<noteq> str ''id''"
  by (cases b; simp add: str_def)+

lemma map_of_put_prop: "map_of (put_prop k v kvs) k' = (if k' = k then Some v else map_of kvs k')"
  by (induction kvs) auto

lemma put_prop_keys:
  "map fst (put_prop k v kvs) = (if k \<in> fst ` set kvs then map fst kvs else map fst kvs @ [k])"
  by (induction kvs) (auto simp: rev_image_eqI)

lemma get_array_JObj:
  "get_array s k = Inr xs \<Longrightarrow> \<exists>kvs. s = JObj kvs \<and> map_of kvs k = Some (JArr xs)"
  by (cases s) (auto simp: get_array_def split: option.splits json.splits)

lemma get_array_set_array:
  "get_array s k = Inr ys \<Longrightarrow>
   get_array (set_array s k xs) k' = (if k' = k then Inr xs else get_array s k')"
proof -
  assume "get_array s k = Inr ys"
  then obtain kvs where "s = JObj kvs"
    using get_array_JObj by blast
  then show ?thesis
    by (simp add: get_array_def map_of_put_prop)
qed

lemma findIndex_None:
  "findIndex p xs = Inr None \<longleftrightarrow> (\<forall>x \<in> set xs. p x = Inr False)"
  by (induction xs) (auto split: sum.splits bool.splits option.splits)

lemma findIndex_Some:
  "findIndex p xs = Inr (Some i) \<longleftrightarrow>
   i < length xs \<and> p (xs ! i) = Inr True \<and> (\<forall>j < i. p (xs ! j) = Inr False)"
proof (induction xs arbitrary: i)
  case Nil
  then show ?case by simp
next
  case (Cons x xs)
  show ?case
  proof (cases i)
    case 0
    then show ?thesis by (auto split: sum.splits bool.splits option.splits)
  next
    case (Suc i')
    have "(\<forall>j < Suc i'. p ((x # xs) ! j) = Inr False) \<longleftrightarrow>
          p x = Inr False \<and> (\<forall>j < i'. p (xs ! j) = Inr False)"
      by (auto simp: less_Suc_eq_0_disj)
    with Suc Cons.IH [of i'] show ?thesis
      by (auto split: sum.splits bool.splits option.splits)
  qed
qed

lemma id_is_finding: "is_finding r \<Longrightarrow> id_is id' r = Inr (has_id id' r)"
  by (cases r) (simp_all add: id_is_def has_id_def)

lemma findIndex_id_total:
  "list_all is_finding xs \<Longrightarrow> \<exists>r. findIndex (id_is id') xs = Inr r"
  by (induction xs) (auto simp: id_is_finding split: sum.splits bool.splits option.splits)

lemma get_array_bucket: "is_bucket s b \<Longrightarrow> get_array s (bucket_key b) = Inr (bucket_items s b)"
  by (auto simp: is_bucket_def bucket_items_def split: sum.splits)

lemma is_bucket_findings: "is_bucket s b \<Longrightarrow> list_all is_finding (bucket_items s b)"
  by (auto simp: is_bucket_def bucket_items_def split: sum.splits)

lemma triage_state_bucket: "triage_state s \<Longrightarrow> is_bucket s b"
  by (cases b) (simp_all add: triage_state_def)

lemma findIndex_first:
  assumes "list_all is_finding (pre @ x # post)"
    and "has_id id' x"
    and "\<forall>r \<in> set pre. \<not> has_id id' r"
  shows "findIndex (id_is id') (pre @ x # post) = Inr (Some (length pre))"
proof -
  have "id_is id' ((pre @ x # post) ! j) = Inr False" if "j < length pre" for j
  proof -
    from that have "(pre @ x # post) ! j \<in> set pre"
      by (simp add: nth_append)
    with assms(1,3) that show ?thesis
      by (simp add: id_is_finding list_all_iff nth_append)
  qed
  moreover have "id_is id' ((pre @ x # post) ! length pre) = Inr True"
    using assms(1,2) by (simp add: id_is_finding)
  ultimately show ?thesis
    by (simp add: findIndex_Some)
qed

lemma findIndex_absent:
  assumes "list_all is_finding xs" and "\<forall>r \<in> set xs. \<not> has_id id' r"
  shows "findIndex (id_is id') xs = Inr None"
  using assms by (simp add: findIndex_None id_is_finding list_all_iff)

text \<open>What the handler does to a triage state when the source bucket has the id.\<close>

lemma handleTriage_found:
  assumes ts: "triage_state s"
    and xs: "bucket_items s from = pre @ x # post"
    and x: "has_id id' x"
    and pre: "\<forall>r \<in> set pre. \<not> has_id id' r"
  shows "\<exists>s'. handleTriage s id' from to = Returned s' (Some s') \<and> triage_state s' \<and>
           (\<forall>b. bucket_items s' b =
              (if b = to then (if to = from then pre @ post else bucket_items s to) @ [x]
               else if b = from then pre @ post
               else bucket_items s b))"
proof -
  let ?kf = "bucket_key from" and ?kt = "bucket_key to"
  have gf: "get_array s ?kf = Inr (pre @ x # post)"
    using ts xs get_array_bucket triage_state_bucket by metis
  have fs: "list_all is_finding (pre @ x # post)"
    using ts xs is_bucket_findings triage_state_bucket by metis
  have fi: "findIndex (id_is id') (pre @ x # post) = Inr (Some (length pre))"
    using fs x pre by (rule findIndex_first)
  define s1 where "s1 = set_array s ?kf (pre @ post)"
  have g1: "get_array s1 k = (if k = ?kf then Inr (pre @ post) else get_array s k)" for k
    unfolding s1_def using gf by (rule get_array_set_array)
  define ys where "ys = (if to = from then pre @ post else bucket_items s to)"
  have gt: "get_array s1 ?kt = Inr ys"
    using ts get_array_bucket [of s to] triage_state_bucket [of s to]
    by (simp add: g1 ys_def)
  define s2 where "s2 = set_array s1 ?kt (ys @ [x])"
  have g2: "get_array s2 k = (if k = ?kt then Inr (ys @ [x]) else get_array s1 k)" for k
    unfolding s2_def using gt by (rule get_array_set_array)
  have run: "handleTriage s id' from to = Returned s2 (Some s2)"
    by (simp add: handleTriage_def gf fi s1_def [symmetric] gt Let_def s2_def [symmetric])
  have items: "bucket_items s2 b =
      (if b = to then ys @ [x] else if b = from then pre @ post else bucket_items s b)" for b
    by (simp add: bucket_items_def g2 g1)
  have fy: "list_all is_finding ys"
    using fs ts is_bucket_findings [of s to] triage_state_bucket [of s to]
    by (auto simp: ys_def)
  have "is_bucket s2 b" for b
    using fs fy ts get_array_bucket [of s b] is_bucket_findings [of s b]
      triage_state_bucket [of s b]
    by (simp add: is_bucket_def g2 g1)
  then have "triage_state s2"
    by (simp add: triage_state_def)
  with run items show ?thesis
    unfolding ys_def by blast
qed

lemma handleTriage_absent:
  assumes "triage_state s" and "\<forall>r \<in> set (bucket_items s from). \<not> has_id id' r"
  shows "handleTriage s id' from to = Returned s None"
proof -
  have "get_array s (bucket_key from) = Inr (bucket_items s from)"
    using assms(1) get_array_bucket triage_state_bucket by metis
  moreover have "findIndex (id_is id') (bucket_items s from) = Inr None"
    using assms is_bucket_findings triage_state_bucket findIndex_absent by metis
  ultimately show ?thesis
    by (simp add: handleTriage_def)
qed

lemma first_with_id:
  assumes "\<exists>r \<in> set xs. has_id id' r"
  shows "\<exists>pre x post. xs = pre @ x # post \<and> has_id id' x \<and> (\<forall>r \<in> set pre. \<not> has_id id' r)"
  using assms split_list_first_prop [of xs "has_id id'"] by blast

section \<open>Ids given by the constructor\<close>

lemma digit_val_digit: "d < 10 \<Longrightarrow> digit_val (digit d) = d"
proof -
  assume "d < 10"
  then have "(48 + d) mod 2 ^ LENGTH(16) = 48 + d"
    by simp
  then have "unat (of_nat (48 + d) :: 16 word) = 48 + d"
    by (simp only: unat_of_nat)
  then show ?thesis
    by (simp only: digit_val_def digit_def)
qed

lemma undec_snoc: "undec (s @ [c]) = 10 * undec s + digit_val c"
  by (simp add: undec_def)

lemma undec_dec: "undec (dec n) = n"
proof (induction n rule: dec.induct)
  case (1 n)
  show ?case
  proof (cases "n < 10")
    case True
    then show ?thesis
      by (subst dec.simps) (simp add: undec_def digit_val_digit)
  next
    case False
    then have "undec (dec n) = 10 * undec (dec (n div 10)) + digit_val (digit (n mod 10))"
      by (subst dec.simps) (simp add: undec_snoc)
    with False "1.IH" show ?thesis
      by (simp add: digit_val_digit)
  qed
qed

lemma dec_inj: "dec m = dec n \<longleftrightarrow> m = n"
  using undec_dec by metis

lemma item_id_inj: "item_id i = item_id j \<longleftrightarrow> i = j"
  by (simp add: item_id_def dec_inj)

lemma map_index_length [simp]: "length (map_index f i xs) = length xs"
  by (induction xs arbitrary: i) auto

lemma map_index_nth: "j < length xs \<Longrightarrow> map_index f i xs ! j = f (xs ! j) (i + j)"
proof (induction xs arbitrary: i j)
  case Nil
  then show ?case by simp
next
  case (Cons x xs)
  then show ?case by (cases j) auto
qed

lemma finding_id_with_id: "finding_id (with_id r i) = Some (JStr (item_id i))"
  by (simp add: with_id_def map_of_put_prop)

lemma ids_map_index:
  "map finding_id (map_index with_id i rs) = map (\<lambda>j. Some (JStr (item_id j))) [i ..< i + length rs]"
proof (induction rs arbitrary: i)
  case Nil
  then show ?case by simp
next
  case (Cons r rs)
  have "[i ..< i + length (r # rs)] = i # [Suc i ..< Suc i + length rs]"
    by (simp add: upt_rec)
  with Cons.IH [of "Suc i"] show ?case
    by (simp add: finding_id_with_id)
qed

lemma distinct_ids_map_index: "distinct (map finding_id (map_index with_id i rs))"
  by (simp add: ids_map_index distinct_map inj_on_def item_id_inj)

lemma findings_map_index: "list_all is_finding (map_index with_id i rs)"
  by (induction rs arbitrary: i) (auto simp: with_id_def)

lemma constructor_buckets:
  "bucket_items (constructor_results rs) Untriaged = map_index with_id 0 rs"
  "bucket_items (constructor_results rs) Issues = []"
  "bucket_items (constructor_results rs) FalsePositives = []"
  by (simp_all add: constructor_results_def bucket_items_def get_array_def str_def)

lemma constructor_triage_state: "triage_state (constructor_results rs)"
proof -
  have "is_bucket (constructor_results rs) Untriaged"
    using findings_map_index [of 0 rs]
    by (simp add: is_bucket_def constructor_results_def get_array_def)
  moreover have "is_bucket (constructor_results rs) Issues"
    by (simp add: is_bucket_def constructor_results_def get_array_def str_def)
  moreover have "is_bucket (constructor_results rs) FalsePositives"
    by (simp add: is_bucket_def constructor_results_def get_array_def str_def)
  ultimately show ?thesis
    by (simp add: triage_state_def)
qed

lemma constructor_partition_inv: "partition_inv (constructor_results rs)"
  by (simp add: partition_inv_def constructor_triage_state all_findings_def
      constructor_buckets distinct_ids_map_index)

section \<open>Claims about ingestion\<close>

text \<open>
  C4. For every input array, the constructor produces a triage state whose
  \<^verbatim>\<open>untriaged\<close> bucket has one finding object per input element, in the input's order;
  the finding at position \<open>i\<close> has the property \<^verbatim>\<open>id\<close> with the value
  \<^verbatim>\<open>item-<i>\<close>, every other property exactly as the input element has it, and the
  properties in the input's order (a new \<^verbatim>\<open>id\<close> last); the ids of two different
  positions differ; \<^verbatim>\<open>issues\<close> and \<^verbatim>\<open>falsePositives\<close> are empty.
\<close>

theorem constructor_ingests_in_order:
  "bucket_items (constructor_results rs) Issues = [] \<and>
   bucket_items (constructor_results rs) FalsePositives = [] \<and>
   length (bucket_items (constructor_results rs) Untriaged) = length rs \<and>
   (\<forall>i < length rs.
      is_finding (bucket_items (constructor_results rs) Untriaged ! i) \<and>
      (\<forall>k. map_of (spread (bucket_items (constructor_results rs) Untriaged ! i)) k =
           (if k = str ''id'' then Some (JStr (item_id i)) else map_of (spread (rs ! i)) k)) \<and>
      map fst (spread (bucket_items (constructor_results rs) Untriaged ! i)) =
        (if str ''id'' \<in> fst ` set (spread (rs ! i)) then map fst (spread (rs ! i))
         else map fst (spread (rs ! i)) @ [str ''id''])) \<and>
   (\<forall>i j. item_id i = item_id j \<longrightarrow> i = j) \<and>
   distinct (map finding_id (bucket_items (constructor_results rs) Untriaged)) \<and>
   partition_inv (constructor_results rs)"
proof -
  have "is_finding (with_id r i)" for r :: "'a json" and i
    by (simp add: with_id_def)
  moreover have "map_of (spread (with_id r i)) k =
      (if k = str ''id'' then Some (JStr (item_id i)) else map_of (spread r) k)"
    for r :: "'a json" and i k
    by (simp add: with_id_def map_of_put_prop)
  moreover have "map fst (spread (with_id r i)) =
      (if str ''id'' \<in> fst ` set (spread r) then map fst (spread r)
       else map fst (spread r) @ [str ''id''])"
    for r :: "'a json" and i
    by (simp add: with_id_def put_prop_keys)
  ultimately show ?thesis
    by (simp add: constructor_buckets map_index_nth item_id_inj distinct_ids_map_index
        constructor_partition_inv)
qed

theorem constructor_ingests_in_order_witness:
  "(1::nat) < length [result_a, result_b] \<and>
   bucket_items fresh_state Untriaged =
     [JObj [(str ''check_id'', JStr (str ''rules.eval'')),
            (str ''path'', JStr (str ''src/a.ts'')),
            (str ''start'', JObj [(str ''line'', JNum (Finite 3)), (str ''col'', JNum (Finite 5))]),
            (str ''id'', JStr (str ''item-0''))],
      JObj [(str ''check_id'', JStr (str ''rules.exec'')),
            (str ''path'', JStr (str ''src/b.ts'')),
            (str ''start'', JObj [(str ''line'', JNum (Finite 8)), (str ''col'', JNum (Finite 1))]),
            (str ''id'', JStr (str ''item-1''))]] \<and>
   map_of (spread (bucket_items fresh_state Untriaged ! 1)) (str ''id'') =
     Some (JStr (item_id 1)) \<and>
   bucket_items fresh_state Issues = []"
proof -
  note all = constructor_ingests_in_order [of "[result_a, result_b]", folded fresh_state_def]
  have len: "(1::nat) < length [result_a, result_b]"
    by simp
  have items: "bucket_items fresh_state Untriaged =
     [JObj [(str ''check_id'', JStr (str ''rules.eval'')),
            (str ''path'', JStr (str ''src/a.ts'')),
            (str ''start'', JObj [(str ''line'', JNum (Finite 3)), (str ''col'', JNum (Finite 5))]),
            (str ''id'', JStr (str ''item-0''))],
      JObj [(str ''check_id'', JStr (str ''rules.exec'')),
            (str ''path'', JStr (str ''src/b.ts'')),
            (str ''start'', JObj [(str ''line'', JNum (Finite 8)), (str ''col'', JNum (Finite 1))]),
            (str ''id'', JStr (str ''item-1''))]]"
    by code_simp
  note at1 = all [THEN conjunct2, THEN conjunct2, THEN conjunct2, THEN conjunct1,
      rule_format, OF len]
  note id1 = at1 [THEN conjunct2, THEN conjunct1, rule_format, of "str ''id''"]
  have "map_of (spread (bucket_items fresh_state Untriaged ! 1)) (str ''id'') =
     Some (JStr (item_id 1))"
    using id1 by (simp only: refl if_True)
  with len items all [THEN conjunct1] show ?thesis
    by (simp only: simp_thms)
qed

section \<open>One move on a state with the partition invariant\<close>

lemma in_all_findings: "x \<in> set (all_findings s) \<longleftrightarrow> (\<exists>b. x \<in> set (bucket_items s b))"
proof
  assume "x \<in> set (all_findings s)"
  then show "\<exists>b. x \<in> set (bucket_items s b)"
    by (auto simp: all_findings_def)
next
  assume "\<exists>b. x \<in> set (bucket_items s b)"
  then obtain b where "x \<in> set (bucket_items s b)" ..
  then show "x \<in> set (all_findings s)"
    by (cases b) (simp_all add: all_findings_def)
qed

lemma all_findings_subset:
  "(\<And>b. set (bucket_items t b) \<subseteq> A) \<Longrightarrow> set (all_findings t) \<subseteq> A"
  by (simp add: all_findings_def)

lemma bucket_items_set_array:
  "get_array s (bucket_key c) = Inr ys \<Longrightarrow>
   bucket_items (set_array s (bucket_key c) xs) b = (if b = c then xs else bucket_items s b)"
  by (simp add: bucket_items_def get_array_set_array)

lemma handleTriage_step:
  assumes "partition_inv s"
  shows "thrown (handleTriage s id' from to) = None \<and>
         partition_inv (results_after (handleTriage s id' from to)) \<and>
         mset (all_findings (results_after (handleTriage s id' from to))) = mset (all_findings s)"
proof (cases "\<exists>r \<in> set (bucket_items s from). has_id id' r")
  case False
  with assms have "handleTriage s id' from to = Returned s None"
    by (simp add: partition_inv_def handleTriage_absent)
  with assms show ?thesis
    by simp
next
  case True
  from assms have ts: "triage_state s"
    by (simp add: partition_inv_def)
  from first_with_id [OF True] obtain pre x post where
    xs: "bucket_items s from = pre @ x # post" and x: "has_id id' x" and
    pre: "\<forall>r \<in> set pre. \<not> has_id id' r"
    by blast
  from handleTriage_found [OF ts xs x pre, of to] obtain s' where
    run: "handleTriage s id' from to = Returned s' (Some s')" and
    ts': "triage_state s'" and
    items: "\<And>b. bucket_items s' b =
        (if b = to then (if to = from then pre @ post else bucket_items s to) @ [x]
         else if b = from then pre @ post
         else bucket_items s b)"
    by blast
  have same: "mset (all_findings s') = mset (all_findings s)"
    using xs by (cases "from"; cases to; simp add: all_findings_def items)
  then have "mset (map finding_id (all_findings s')) = mset (map finding_id (all_findings s))"
    by simp
  then have "distinct (map finding_id (all_findings s')) \<longleftrightarrow>
             distinct (map finding_id (all_findings s))"
    by (rule mset_eq_imp_distinct_iff)
  with assms ts' have "partition_inv s'"
    by (simp add: partition_inv_def)
  with run same show ?thesis
    by simp
qed

lemma handleTriages_inv:
  "partition_inv s \<Longrightarrow>
   partition_inv (handleTriages s ms) \<and>
   mset (all_findings (handleTriages s ms)) = mset (all_findings s)"
proof (induction ms arbitrary: s)
  case Nil
  then show ?case by simp
next
  case (Cons m ms)
  obtain id' "from" to where m: "m = (id', from, to)"
    by (cases m) auto
  from handleTriage_step [OF Cons.prems, of id' "from" to]
  have inv: "partition_inv (results_after (handleTriage s id' from to))"
    and same: "mset (all_findings (results_after (handleTriage s id' from to))) =
               mset (all_findings s)"
    by simp_all
  from Cons.IH [OF inv] same show ?case
    by (simp add: m)
qed

lemma distinct_ids_buckets:
  assumes "distinct (map finding_id (all_findings s))" and "b \<noteq> c"
  shows "finding_id ` set (bucket_items s b) \<inter> finding_id ` set (bucket_items s c) = {}"
  using assms by (cases b; cases c) (auto simp: all_findings_def)

lemma distinct_ids_bucket:
  assumes "distinct (map finding_id (all_findings s))"
  shows "distinct (map finding_id (bucket_items s b))"
  using assms by (cases b) (auto simp: all_findings_def)

section \<open>Claims about moving a finding\<close>

text \<open>
  C3. For every triage state and every id that no finding of the bucket \<open>from\<close> has
  (whatever the other two buckets hold), the handler returns without throwing, leaves
  the state exactly as it was and posts no message.
\<close>

theorem move_absent_is_noop:
  assumes "triage_state s"
    and "\<not> (\<exists>r \<in> set (bucket_items s from). has_id id' r)"
  shows "results_after (handleTriage s id' from to) = s \<and>
         thrown (handleTriage s id' from to) = None \<and>
         posted (handleTriage s id' from to) = None"
  using assms handleTriage_absent [of s "from" id' to] by simp

theorem move_absent_is_noop_witness:
  "triage_state triaged_state \<and>
   (\<exists>r \<in> set (bucket_items triaged_state Issues). has_id (str ''item-0'') r) \<and>
   \<not> (\<exists>r \<in> set (bucket_items triaged_state Untriaged). has_id (str ''item-0'') r) \<and>
   results_after (handleTriage triaged_state (str ''item-0'') Untriaged FalsePositives) =
     triaged_state \<and>
   thrown (handleTriage triaged_state (str ''item-0'') Untriaged FalsePositives) = None"
proof -
  have ts: "triage_state triaged_state"
    by code_simp
  have other: "\<exists>r \<in> set (bucket_items triaged_state Issues). has_id (str ''item-0'') r"
    by code_simp
  have absent:
    "\<not> (\<exists>r \<in> set (bucket_items triaged_state Untriaged). has_id (str ''item-0'') r)"
    by code_simp
  from move_absent_is_noop [OF ts absent, of FalsePositives] ts other absent
  show ?thesis
    by (simp only: simp_thms)
qed

text \<open>
  C5. For every triage state whose bucket \<open>from\<close> holds a finding with the given id,
  the first such finding \<open>x\<close> is taken out of \<open>from\<close>, the findings before and after
  it keeping their order, and is put at the end of \<open>to\<close>; the third bucket is
  untouched, nothing is thrown and the new state is posted. When \<open>from\<close> and \<open>to\<close>
  are the same bucket, taking out and appending both act on it.
\<close>

theorem move_found_splices_and_appends:
  assumes "triage_state s"
    and "bucket_items s from = pre @ x # post"
    and "has_id id' x"
    and "\<forall>r \<in> set pre. \<not> has_id id' r"
  shows "thrown (handleTriage s id' from to) = None \<and>
         posted (handleTriage s id' from to) = Some (results_after (handleTriage s id' from to)) \<and>
         (from \<noteq> to \<longrightarrow>
            bucket_items (results_after (handleTriage s id' from to)) from = pre @ post \<and>
            bucket_items (results_after (handleTriage s id' from to)) to =
              bucket_items s to @ [x]) \<and>
         (from = to \<longrightarrow>
            bucket_items (results_after (handleTriage s id' from to)) to = pre @ post @ [x]) \<and>
         (\<forall>b. b \<noteq> from \<and> b \<noteq> to \<longrightarrow>
            bucket_items (results_after (handleTriage s id' from to)) b = bucket_items s b)"
proof -
  from handleTriage_found [OF assms, of to] obtain s' where
    run: "handleTriage s id' from to = Returned s' (Some s')" and
    items: "\<And>b. bucket_items s' b =
        (if b = to then (if to = from then pre @ post else bucket_items s to) @ [x]
         else if b = from then pre @ post
         else bucket_items s b)"
    by blast
  show ?thesis
    unfolding run by (simp add: items)
qed

theorem move_found_splices_and_appends_witness:
  "triage_state fresh_state \<and>
   bucket_items fresh_state Untriaged =
     [] @ with_id result_a 0 # [with_id result_b 1] \<and>
   has_id (str ''item-0'') (with_id result_a 0) \<and>
   bucket_items triaged_state Untriaged = [with_id result_b 1] \<and>
   bucket_items triaged_state Issues = [with_id result_a 0] \<and>
   bucket_items triaged_state FalsePositives = []"
proof -
  have ts: "triage_state fresh_state"
    by code_simp
  have xs: "bucket_items fresh_state Untriaged = [] @ with_id result_a 0 # [with_id result_b 1]"
    by code_simp
  have x: "has_id (str ''item-0'') (with_id result_a 0)"
    by code_simp
  have pre: "\<forall>r \<in> set []. \<not> has_id (str ''item-0'') (r :: nat json)"
    by simp
  have empty: "bucket_items fresh_state Issues = []" "bucket_items fresh_state FalsePositives = []"
    by code_simp+
  note moved = move_found_splices_and_appends [OF ts xs x pre, of Issues,
      folded triaged_state_def]
  from moved have "bucket_items triaged_state Untriaged = [with_id result_b 1]"
    by simp
  moreover from moved empty have "bucket_items triaged_state Issues = [with_id result_a 0]"
    by simp
  moreover from moved empty have "bucket_items triaged_state FalsePositives = []"
    by simp
  ultimately show ?thesis
    using ts xs x by (simp only: simp_thms)
qed

text \<open>
  C1. From every state with the partition invariant, after every sequence of moves
  (hence after each move of a sequence, every initial part of which is a sequence) the
  three buckets hold exactly the findings they held at the start, each as often as
  before, so their union is the union before the move; the invariant still holds, and
  no id occurs in two different buckets.
\<close>

theorem moves_preserve_partition:
  assumes "partition_inv s"
  shows "mset (all_findings (handleTriages s ms)) = mset (all_findings s) \<and>
         set (bucket_items (handleTriages s ms) Untriaged) \<union>
           set (bucket_items (handleTriages s ms) Issues) \<union>
           set (bucket_items (handleTriages s ms) FalsePositives) =
         set (bucket_items s Untriaged) \<union> set (bucket_items s Issues) \<union>
           set (bucket_items s FalsePositives) \<and>
         partition_inv (handleTriages s ms) \<and>
         (\<forall>b c. b \<noteq> c \<longrightarrow>
            finding_id ` set (bucket_items (handleTriages s ms) b) \<inter>
            finding_id ` set (bucket_items (handleTriages s ms) c) = {})"
proof -
  from handleTriages_inv [OF assms, of ms]
  have inv: "partition_inv (handleTriages s ms)"
    and same: "mset (all_findings (handleTriages s ms)) = mset (all_findings s)"
    by simp_all
  from same have "set (all_findings (handleTriages s ms)) = set (all_findings s)"
    by (rule mset_eq_setD)
  then have "set (bucket_items (handleTriages s ms) Untriaged) \<union>
           set (bucket_items (handleTriages s ms) Issues) \<union>
           set (bucket_items (handleTriages s ms) FalsePositives) =
         set (bucket_items s Untriaged) \<union> set (bucket_items s Issues) \<union>
           set (bucket_items s FalsePositives)"
    by (simp add: all_findings_def Un_assoc)
  moreover from inv have "\<forall>b c. b \<noteq> c \<longrightarrow>
            finding_id ` set (bucket_items (handleTriages s ms) b) \<inter>
            finding_id ` set (bucket_items (handleTriages s ms) c) = {}"
    by (simp add: partition_inv_def distinct_ids_buckets)
  ultimately show ?thesis
    using inv same by blast
qed

theorem moves_preserve_partition_witness:
  "partition_inv fresh_state \<and>
   bucket_items (handleTriages fresh_state
      [(str ''item-0'', Untriaged, Issues), (str ''item-1'', Untriaged, FalsePositives),
       (str ''item-7'', Untriaged, Issues), (str ''item-0'', Issues, FalsePositives)])
      FalsePositives = [with_id result_b 1, with_id result_a 0] \<and>
   mset (all_findings (handleTriages fresh_state
      [(str ''item-0'', Untriaged, Issues), (str ''item-1'', Untriaged, FalsePositives),
       (str ''item-7'', Untriaged, Issues), (str ''item-0'', Issues, FalsePositives)])) =
   mset (all_findings fresh_state)"
proof -
  have inv: "partition_inv fresh_state"
    unfolding fresh_state_def by (rule constructor_partition_inv)
  have "bucket_items (handleTriages fresh_state
      [(str ''item-0'', Untriaged, Issues), (str ''item-1'', Untriaged, FalsePositives),
       (str ''item-7'', Untriaged, Issues), (str ''item-0'', Issues, FalsePositives)])
      FalsePositives = [with_id result_b 1, with_id result_a 0]"
    by code_simp
  with inv moves_preserve_partition [OF inv, THEN conjunct1] show ?thesis
    by (simp only: simp_thms)
qed

text \<open>
  C9. For every state with the partition invariant and every bucket \<open>b\<close> that holds a
  finding \<open>x\<close> with the given id, a move from \<open>b\<close> to \<open>b\<close> puts \<open>x\<close> at the end of
  \<open>b\<close>. The new content is a permutation of the old one, without a duplicate, and the
  other two buckets are unchanged.
\<close>

theorem move_within_bucket:
  assumes "partition_inv s"
    and "bucket_items s b = pre @ x # post"
    and "has_id id' x"
  shows "thrown (handleTriage s id' b b) = None \<and>
         bucket_items (results_after (handleTriage s id' b b)) b = pre @ post @ [x] \<and>
         mset (bucket_items (results_after (handleTriage s id' b b)) b) =
           mset (bucket_items s b) \<and>
         distinct (bucket_items (results_after (handleTriage s id' b b)) b) \<and>
         (\<forall>c. c \<noteq> b \<longrightarrow>
            bucket_items (results_after (handleTriage s id' b b)) c = bucket_items s c)"
proof -
  from assms(1) have ts: "triage_state s"
    and ids: "distinct (map finding_id (pre @ x # post))"
    using distinct_ids_bucket [of s b] by (simp_all add: partition_inv_def assms(2))
  from ids have "finding_id x \<notin> finding_id ` set pre"
    by auto
  with assms(3) have pre: "\<forall>r \<in> set pre. \<not> has_id id' r"
    by (metis has_id_def imageI)
  from handleTriage_found [OF ts assms(2) assms(3) pre, of b] obtain s' where
    run: "handleTriage s id' b b = Returned s' (Some s')" and
    items: "\<And>c. bucket_items s' c =
        (if c = b then (if b = b then pre @ post else bucket_items s b) @ [x]
         else if c = b then pre @ post
         else bucket_items s c)"
    by blast
  from ids have "distinct (pre @ x # post)"
    by (simp only: distinct_map)
  then have "distinct (pre @ post @ [x])"
    by auto
  then show ?thesis
    unfolding run by (simp add: items assms(2))
qed

theorem move_within_bucket_witness:
  "partition_inv fresh_state \<and>
   bucket_items fresh_state Untriaged = [] @ with_id result_a 0 # [with_id result_b 1] \<and>
   has_id (str ''item-0'') (with_id result_a 0) \<and>
   bucket_items (results_after (handleTriage fresh_state (str ''item-0'') Untriaged Untriaged))
     Untriaged = [with_id result_b 1, with_id result_a 0]"
proof -
  have inv: "partition_inv fresh_state"
    unfolding fresh_state_def by (rule constructor_partition_inv)
  have xs: "bucket_items fresh_state Untriaged = [] @ with_id result_a 0 # [with_id result_b 1]"
    by code_simp
  have x: "has_id (str ''item-0'') (with_id result_a 0)"
    by code_simp
  from move_within_bucket [OF inv xs x] inv xs x show ?thesis
    by simp
qed

text \<open>
  C10. For every state, of any shape, and every move, each finding that a bucket holds
  after the move is a finding that some bucket held before it, equal in every property:
  the handler takes findings out and puts them in, and never writes to one.
\<close>

theorem move_changes_no_finding:
  "set (all_findings (results_after (handleTriage s id' from to))) \<subseteq> set (all_findings s)"
proof (cases "get_array s (bucket_key from)")
  case (Inl e)
  then show ?thesis
    by (simp add: handleTriage_def)
next
  case (Inr xs)
  note gf = this
  then have xs: "bucket_items s from = xs"
    by (simp add: bucket_items_def)
  show ?thesis
  proof (cases "findIndex (id_is id') xs")
    case (Inl e)
    with gf show ?thesis
      by (simp add: handleTriage_def)
  next
    case (Inr found)
    show ?thesis
    proof (cases found)
      case None
      with gf Inr show ?thesis
        by (simp add: handleTriage_def)
    next
      case (Some i)
      with Inr have fi: "findIndex (id_is id') xs = Inr (Some i)"
        by simp
      then have i: "i < length xs"
        by (simp add: findIndex_Some)
      define s1 where "s1 = set_array s (bucket_key from) (take i xs @ drop (Suc i) xs)"
      have items1: "bucket_items s1 b =
          (if b = from then take i xs @ drop (Suc i) xs else bucket_items s b)" for b
        unfolding s1_def using gf by (rule bucket_items_set_array)
      have sub1: "set (bucket_items s1 b) \<subseteq> set (all_findings s)" for b
      proof (cases "b = from")
        case True
        have "set (take i xs @ drop (Suc i) xs) \<subseteq> set xs"
          using set_take_subset [of i xs] set_drop_subset [of "Suc i" xs] by auto
        moreover have "set xs \<subseteq> set (all_findings s)"
          using xs in_all_findings by blast
        ultimately have "set (take i xs @ drop (Suc i) xs) \<subseteq> set (all_findings s)"
          by (rule subset_trans)
        with True show ?thesis
          by (simp only: items1 refl if_True)
      next
        case False
        then show ?thesis
          by (auto simp: items1 in_all_findings)
      qed
      have item: "xs ! i \<in> set (all_findings s)"
        using i xs in_all_findings nth_mem by metis
      show ?thesis
      proof (cases "get_array s1 (bucket_key to)")
        case (Inl e)
        with gf fi have "handleTriage s id' from to = Threw e s1"
          by (simp add: handleTriage_def s1_def Let_def)
        with all_findings_subset [of s1, OF sub1] show ?thesis
          by simp
      next
        case (Inr ys)
        define s2 where "s2 = set_array s1 (bucket_key to) (ys @ [xs ! i])"
        from Inr have ys: "bucket_items s1 to = ys"
          by (simp add: bucket_items_def)
        have items2: "bucket_items s2 b = (if b = to then ys @ [xs ! i] else bucket_items s1 b)"
          for b
          unfolding s2_def using Inr by (rule bucket_items_set_array)
        from gf fi Inr have "handleTriage s id' from to = Returned s2 (Some s2)"
          by (simp add: handleTriage_def s1_def s2_def Let_def)
        moreover have "set (bucket_items s2 b) \<subseteq> set (all_findings s)" for b
          using sub1 [of b] sub1 [of to] item ys by (auto simp: items2)
        then have "set (all_findings s2) \<subseteq> set (all_findings s)"
          by (rule all_findings_subset)
        ultimately show ?thesis
          by simp
      qed
    qed
  qed
qed

theorem move_changes_no_finding_witness:
  "set (all_findings triaged_state) \<subseteq> set (all_findings fresh_state) \<and>
   all_findings triaged_state = [with_id result_b 1, with_id result_a 0]"
proof -
  have "all_findings triaged_state = [with_id result_b 1, with_id result_a 0]"
    by code_simp
  with move_changes_no_finding [of fresh_state "str ''item-0''" Untriaged Issues]
  show ?thesis
    by (simp only: triaged_state_def simp_thms)
qed

section \<open>Claims about opening, loading and failures\<close>

lemma results_array_field:
  "results_array doc = Some rs \<longleftrightarrow> field doc (str ''results'') = Some (JArr rs)"
  by (cases doc)
    (auto simp: results_array_def split: option.splits json.splits)

lemma results_array_None:
  "results_array doc = None \<longleftrightarrow> \<not> (\<exists>rs. field doc (str ''results'') = Some (JArr rs))"
  using results_array_field [of doc] by (cases "results_array doc") auto

text \<open>
  C6. When the chosen file is read and parsed, and the document has no own property
  \<^verbatim>\<open>results\<close> holding an array (the property is absent, or not an array, or the
  document is not an object), the command shows the format error and changes nothing
  else: no panel is created and the panel there was keeps its state. When the property
  holds an array, the panel gets the state the constructor builds from it, whatever its
  elements are, and no message is shown.
\<close>

theorem open_results_requires_array:
  assumes "readFile h u = Inr content" and "parse content = Inr doc"
  shows "(\<not> (\<exists>rs. field doc (str ''results'') = Some (JArr rs)) \<longrightarrow>
            openResults parse (Some (u # us)) h =
              h\<lparr>window := window h @ [ErrorMessage invalid_results_format]\<rparr> \<and>
            currentPanel (openResults parse (Some (u # us)) h) = currentPanel h) \<and>
         (\<forall>rs. field doc (str ''results'') = Some (JArr rs) \<longrightarrow>
            openResults parse (Some (u # us)) h =
              h\<lparr>currentPanel := Some (constructor_results rs)\<rparr>)"
proof (cases "results_array doc")
  case None
  then have "\<not> (\<exists>rs. field doc (str ''results'') = Some (JArr rs))"
    using results_array_None by blast
  with None assms show ?thesis
    by (simp add: openResults_def showErrorMessage_def)
next
  case (Some rs)
  then have "field doc (str ''results'') = Some (JArr rs)"
    using results_array_field by blast
  with Some assms show ?thesis
    by (simp add: openResults_def createOrShow_def)
qed

lemma parse_empty_object: "JSON_parse example_toNumber (str ''{}'') = Inr (JObj [])"
  by (simp add: JSON_parse_def str_def is_ws_def)

theorem open_results_requires_array_witness:
  "readFile busy_host report_uri = Inr (str ''{}'') \<and>
   JSON_parse example_toNumber (str ''{}'') = Inr (JObj []) \<and>
   \<not> (\<exists>rs. field (JObj [] :: nat json) (str ''results'') = Some (JArr rs)) \<and>
   currentPanel (openResults (JSON_parse example_toNumber) (Some [report_uri]) busy_host) =
     Some triaged_state \<and>
   window (openResults (JSON_parse example_toNumber) (Some [report_uri]) busy_host) =
     [ErrorMessage invalid_results_format]"
proof -
  have rd: "readFile busy_host report_uri = Inr (str ''{}'')"
    by (simp add: busy_host_def)
  have no: "\<not> (\<exists>rs. field (JObj [] :: nat json) (str ''results'') = Some (JArr rs))"
    by simp
  from open_results_requires_array [where parse = "JSON_parse example_toNumber",
      OF rd parse_empty_object, of "[]", THEN conjunct1, rule_format, OF no]
  have "openResults (JSON_parse example_toNumber) (Some [report_uri]) busy_host =
      busy_host\<lparr>window := window busy_host @ [ErrorMessage invalid_results_format]\<rparr>"
    by (rule conjunct1)
  then show ?thesis
    using rd no parse_empty_object by (simp add: busy_host_def)
qed

text \<open>
  C7. When the chosen file is read and parsed, \<^verbatim>\<open>_loadProgress\<close> makes the parsed value
  the state, whatever it is, posts it to the display and reports success; the message
  \<^verbatim>\<open>Invalid progress file structure.\<close> is not shown, also when the value fails the
  structure test that the source writes after \<^verbatim>\<open>true ||\<close>.
\<close>

theorem load_replaces_state_unchecked:
  assumes "readFile h u = Inr content" and "parse content = Inr loadedData"
  shows "loadProgress parse (Inr (Some (u # us))) h =
           h\<lparr>currentPanel := Some loadedData,
             webview := webview h @ [loadedData],
             window := window h @
               [InformationMessage (str ''Semgrep triage progress loaded successfully!'')]\<rparr>"
  using assms
  by (simp add: loadProgress_def showInformationMessage_def postMessage_def)

theorem load_replaces_state_unchecked_witness:
  "readFile busy_host report_uri = Inr (str ''{}'') \<and>
   JSON_parse example_toNumber (str ''{}'') = Inr (JObj []) \<and>
   \<not> structure_ok (JObj [] :: nat json) \<and>
   currentPanel (loadProgress (JSON_parse example_toNumber) (Inr (Some [report_uri])) busy_host) =
     Some (JObj []) \<and>
   window (loadProgress (JSON_parse example_toNumber) (Inr (Some [report_uri])) busy_host) =
     [InformationMessage (str ''Semgrep triage progress loaded successfully!'')]"
proof -
  have rd: "readFile busy_host report_uri = Inr (str ''{}'')"
    by (simp add: busy_host_def)
  have "\<not> structure_ok (JObj [] :: nat json)"
    by (simp add: structure_ok_def)
  with load_replaces_state_unchecked [where parse = "JSON_parse example_toNumber",
      OF rd parse_empty_object, of "[]"] rd parse_empty_object
  show ?thesis
    by (simp add: busy_host_def)
qed

text \<open>
  C8. A failure of the dialog, of reading the file or of parsing its text during a load,
  a failure of the dialog or of writing the file during a save, a failure of reading or
  parsing the file during ingestion, and a failure to open the document of a
  navigation are each reported with an error message, and the handler changes nothing
  else: the state of the panel, the files and the messages posted to the display are
  what they were.
\<close>

theorem failures_leave_state_unchanged:
  "(ldialog = Inl m \<or>
    ldialog = Inr (Some (u # us)) \<and>
      (readFile h u = Inl m \<or> (\<exists>content. readFile h u = Inr content \<and> parse content = Inl m)) \<longrightarrow>
      loadProgress parse ldialog h =
        h\<lparr>window := window h @ [ErrorMessage (str ''Failed to load progress: '' @ m)]\<rparr>) \<and>
   (sdialog = Inl m \<or> sdialog = Inr (Some u) \<and> writeError h u = Some m \<longrightarrow>
      saveProgress stringify sdialog data h =
        h\<lparr>window := window h @ [ErrorMessage (str ''Failed to save progress: '' @ m)]\<rparr>) \<and>
   (readFile h u = Inl m \<or> (\<exists>content. readFile h u = Inr content \<and> parse content = Inl m) \<longrightarrow>
      openResults parse (Some (u # us)) h =
        h\<lparr>window := window h @ [ErrorMessage (str ''Failed to read or parse file: '' @ m)]\<rparr>) \<and>
   goToLocation False path h =
     h\<lparr>window := window h @
       [ErrorMessage (str ''Could not open file: '' @ path @ str ''. (Is the path correct?)'')]\<rparr> \<and>
   currentPanel (h\<lparr>window := w\<rparr>) = currentPanel h \<and>
   readFile (h\<lparr>window := w\<rparr>) = readFile h \<and>
   webview (h\<lparr>window := w\<rparr>) = webview h"
proof -
  have load: "loadProgress parse ldialog h =
        h\<lparr>window := window h @ [ErrorMessage (str ''Failed to load progress: '' @ m)]\<rparr>"
    if "ldialog = Inl m \<or>
        ldialog = Inr (Some (u # us)) \<and>
          (readFile h u = Inl m \<or> (\<exists>content. readFile h u = Inr content \<and> parse content = Inl m))"
    using that by (auto simp: loadProgress_def showErrorMessage_def)
  have save: "saveProgress stringify sdialog data h =
        h\<lparr>window := window h @ [ErrorMessage (str ''Failed to save progress: '' @ m)]\<rparr>"
    if "sdialog = Inl m \<or> sdialog = Inr (Some u) \<and> writeError h u = Some m"
    using that by (auto simp: saveProgress_def writeFile_def showErrorMessage_def)
  have "open": "openResults parse (Some (u # us)) h =
        h\<lparr>window := window h @ [ErrorMessage (str ''Failed to read or parse file: '' @ m)]\<rparr>"
    if "readFile h u = Inl m \<or> (\<exists>content. readFile h u = Inr content \<and> parse content = Inl m)"
    using that by (auto simp: openResults_def showErrorMessage_def)
  have goto: "goToLocation False path h =
     h\<lparr>window := window h @
       [ErrorMessage (str ''Could not open file: '' @ path @ str ''. (Is the path correct?)'')]\<rparr>"
    by (simp add: goToLocation_def showErrorMessage_def)
  from load save "open" goto show ?thesis
    by simp
qed

theorem failures_leave_state_unchanged_witness:
  "readFile busy_host missing_uri = Inl (str ''ENOENT'') \<and>
   currentPanel (loadProgress (JSON_parse example_toNumber) (Inr (Some [missing_uri])) busy_host) =
     Some triaged_state \<and>
   window (loadProgress (JSON_parse example_toNumber) (Inr (Some [missing_uri])) busy_host) =
     [ErrorMessage (str ''Failed to load progress: '' @ str ''ENOENT'')] \<and>
   writeError busy_host missing_uri = Some (str ''EACCES'') \<and>
   currentPanel (saveProgress (JSON_stringify example_toString) (Inr (Some missing_uri)) triaged_state busy_host) =
     Some triaged_state \<and>
   window (saveProgress (JSON_stringify example_toString) (Inr (Some missing_uri)) triaged_state busy_host) =
     [ErrorMessage (str ''Failed to save progress: '' @ str ''EACCES'')]"
proof -
  have rd: "readFile busy_host missing_uri = Inl (str ''ENOENT'')"
    by (simp add: busy_host_def missing_uri_def report_uri_def overflow_uri_def str_def)
  have wr: "writeError busy_host missing_uri = Some (str ''EACCES'')"
    by (simp add: busy_host_def)
  note all = failures_leave_state_unchanged [of "Inr (Some [missing_uri])" _ missing_uri "[]"
      busy_host "JSON_parse example_toNumber" "Inr (Some missing_uri)"
      "JSON_stringify example_toString" triaged_state]
  from rd have "loadProgress (JSON_parse example_toNumber) (Inr (Some [missing_uri])) busy_host =
      busy_host\<lparr>window := window busy_host @
        [ErrorMessage (str ''Failed to load progress: '' @ str ''ENOENT'')]\<rparr>"
    using all [of "str ''ENOENT''", THEN conjunct1] by simp
  moreover from wr have
    "saveProgress (JSON_stringify example_toString) (Inr (Some missing_uri)) triaged_state busy_host =
      busy_host\<lparr>window := window busy_host @
        [ErrorMessage (str ''Failed to save progress: '' @ str ''EACCES'')]\<rparr>"
    using all [of "str ''EACCES''", THEN conjunct2, THEN conjunct1] by simp
  ultimately show ?thesis
    using rd wr by (simp add: busy_host_def)
qed

section \<open>Strings: reading what \<^verbatim>\<open>QuoteJSONString\<close> writes\<close>

lemma unat16_of_nat: "n < 65536 \<Longrightarrow> unat (of_nat n :: 16 word) = n"
  by (simp add: unat_of_nat)

lemma hex_val_digit: "d < 16 \<Longrightarrow> hex_val (hex_digit d) = Some d"
  by (auto simp: hex_val_def hex_digit_def word_le_nat_alt unat16_of_nat
      simp del: of_nat_add)

lemma hex_join: "((n div 4096 * 16 + n div 256 mod 16) * 16 + n div 16 mod 16) * 16 + n mod 16 = (n::nat)"
proof -
  have a: "n div 4096 = n div 256 div 16"
    by (simp add: div_mult2_eq [symmetric])
  have b: "n div 256 = n div 16 div 16"
    by (simp add: div_mult2_eq [symmetric])
  have "n div 4096 * 16 + n div 256 mod 16 = n div 256"
    unfolding a by simp
  moreover have "n div 256 * 16 + n div 16 mod 16 = n div 16"
    unfolding b by simp
  ultimately show ?thesis
    by simp
qed

lemma hex_join': "4096 * (n div 4096) + 256 * (n div 256 mod 16) + n div 16 mod 16 * 16 + n mod 16 = (n::nat)"
  using hex_join [of n] by simp

lemma hex4_escape:
  "hex4 (hex_digit (unat c div 4096)) (hex_digit (unat c div 256 mod 16))
      (hex_digit (unat c div 16 mod 16)) (hex_digit (unat c mod 16)) = Some c"
proof -
  have "unat c < 65536"
    using unsigned_less [of c, where 'a = nat] by simp
  then have "unat c div 4096 < 16"
    by simp
  then show ?thesis
    by (simp add: hex4_def hex_val_digit hex_join' del: of_nat_add of_nat_mult)
qed

lemma leading_bounds: "is_leading c \<Longrightarrow> c \<noteq> 0x22 \<and> c \<noteq> 0x5C \<and> \<not> c < 0x20"
  by (auto simp: is_leading_def word_le_nat_alt word_less_nat_alt)

lemma trailing_bounds: "is_trailing c \<Longrightarrow> c \<noteq> 0x22 \<and> c \<noteq> 0x5C \<and> \<not> c < 0x20"
  by (auto simp: is_trailing_def word_le_nat_alt word_less_nat_alt)

lemma lex_string_escape:
  "lex_string (UnicodeEscape c @ text) = map_option (\<lambda>(s, r). (c # s, r)) (lex_string text)"
  by (simp add: UnicodeEscape_def hex4_escape)

lemma lex_string_simple:
  "simple_escape e = Some u \<Longrightarrow>
   lex_string (0x5C # e # text) = map_option (\<lambda>(s, r). (u # s, r)) (lex_string text)"
  by (auto simp: simple_escape_def split: if_splits)

lemma lex_string_plain:
  "c \<noteq> 0x22 \<Longrightarrow> c \<noteq> 0x5C \<Longrightarrow> \<not> c < 0x20 \<Longrightarrow>
   lex_string (c # text) = map_option (\<lambda>(s, r). (c # s, r)) (lex_string text)"
  by simp

lemma simple_escapes:
  "simple_escape 0x62 = Some 0x08" "simple_escape 0x74 = Some 0x09"
  "simple_escape 0x6E = Some 0x0A" "simple_escape 0x66 = Some 0x0C"
  "simple_escape 0x72 = Some 0x0D" "simple_escape 0x22 = Some 0x22"
  "simple_escape 0x5C = Some 0x5C"
  by (simp_all add: simple_escape_def)

text \<open>One step of the quoting, as the unit or the two units it consumes and what it emits.\<close>

lemma quote_units_step:
  "\<exists>us out more. c # cs = us @ more \<and> us \<noteq> [] \<and> quote_units (c # cs) = out @ quote_units more \<and>
     (\<forall>text. lex_string (out @ text) = map_option (\<lambda>(s, r). (us @ s, r)) (lex_string text))"
proof -
  have esc: "?thesis" if "quote_units (c # cs) = UnicodeEscape c @ quote_units cs"
  proof -
    have "c # cs = [c] @ cs \<and> [c] \<noteq> [] \<and> quote_units (c # cs) = UnicodeEscape c @ quote_units cs \<and>
     (\<forall>text. lex_string (UnicodeEscape c @ text) = map_option (\<lambda>(s, r). ([c] @ s, r)) (lex_string text))"
      using that by (simp add: lex_string_escape)
    then show ?thesis by blast
  qed
  have simple: "?thesis" if "quote_units (c # cs) = [0x5C, e] @ quote_units cs" "simple_escape e = Some c" for e
  proof -
    have "c # cs = [c] @ cs \<and> [c] \<noteq> [] \<and> quote_units (c # cs) = [0x5C, e] @ quote_units cs \<and>
     (\<forall>text. lex_string ([0x5C, e] @ text) = map_option (\<lambda>(s, r). ([c] @ s, r)) (lex_string text))"
      using that lex_string_simple [OF that(2)] by simp
    then show ?thesis by blast
  qed
  consider "c = 0x08" | "c = 0x09" | "c = 0x0A" | "c = 0x0C" | "c = 0x0D" | "c = 0x22" | "c = 0x5C"
    | "c \<notin> {0x08, 0x09, 0x0A, 0x0C, 0x0D, 0x22, 0x5C}" "c < 0x20"
    | "c \<notin> {0x08, 0x09, 0x0A, 0x0C, 0x0D, 0x22, 0x5C}" "\<not> c < 0x20" "is_leading c"
    | "c \<notin> {0x08, 0x09, 0x0A, 0x0C, 0x0D, 0x22, 0x5C}" "\<not> c < 0x20" "\<not> is_leading c" "is_trailing c"
    | "c \<notin> {0x08, 0x09, 0x0A, 0x0C, 0x0D, 0x22, 0x5C}" "\<not> c < 0x20" "\<not> is_leading c" "\<not> is_trailing c"
    by blast
  then show ?thesis
  proof cases
    case 1 then show ?thesis by (intro simple [of "0x62"]) (simp_all add: simple_escapes)
  next
    case 2 then show ?thesis by (intro simple [of "0x74"]) (simp_all add: simple_escapes)
  next
    case 3 then show ?thesis by (intro simple [of "0x6E"]) (simp_all add: simple_escapes)
  next
    case 4 then show ?thesis by (intro simple [of "0x66"]) (simp_all add: simple_escapes)
  next
    case 5 then show ?thesis by (intro simple [of "0x72"]) (simp_all add: simple_escapes)
  next
    case 6 then show ?thesis by (intro simple [of "0x22"]) (simp_all add: simple_escapes)
  next
    case 7 then show ?thesis by (intro simple [of "0x5C"]) (simp_all add: simple_escapes)
  next
    case 8 then show ?thesis by (intro esc) simp
  next
    case 9
    show ?thesis
    proof (cases cs)
      case Nil
      with 9 show ?thesis by (intro esc) simp
    next
      case (Cons d ds)
      show ?thesis
      proof (cases "is_trailing d")
        case False
        with 9 Cons show ?thesis by (intro esc) simp
      next
        case True
        have "lex_string ([c, d] @ t) = map_option (\<lambda>(s, r). ([c, d] @ s, r)) (lex_string t)"
          for t
          using 9 trailing_bounds [OF True] by (simp add: option.map_comp comp_def split_def)
        moreover have "quote_units (c # cs) = [c, d] @ quote_units ds"
          using 9 True Cons by simp
        moreover have "c # cs = [c, d] @ ds"
          using Cons by simp
        ultimately show ?thesis
          by blast
      qed
    qed
  next
    case 10 then show ?thesis by (intro esc) simp
  next
    case 11
    have "lex_string ([c] @ t) = map_option (\<lambda>(s, r). ([c] @ s, r)) (lex_string t)" for t
      using 11 by simp
    moreover have "quote_units (c # cs) = [c] @ quote_units cs"
      using 11 by simp
    ultimately show ?thesis
      by (metis append_Cons append_Nil list.distinct(1))
  qed
qed


lemma lex_string_quote: "lex_string (quote_units s @ 0x22 # rest) = Some (s, rest)"
proof (induction "length s" arbitrary: s rule: less_induct)
  case less
  show ?case
  proof (cases s)
    case Nil
    then show ?thesis by simp
  next
    case (Cons c cs)
    from quote_units_step [of c cs] obtain us out more where
      split: "c # cs = us @ more" and ne: "us \<noteq> []" and
      q: "quote_units (c # cs) = out @ quote_units more" and
      l: "\<And>t. lex_string (out @ t) = map_option (\<lambda>(s, r). (us @ s, r)) (lex_string t)"
      by blast
    from split ne Cons have "length more < length s"
      by (metis append_eq_conv_conj length_drop diff_less length_greater_0_conv list.distinct(1) length_0_conv)
    then have "lex_string (quote_units more @ 0x22 # rest) = Some (more, rest)"
      by (rule less.hyps)
    with l [of "quote_units more @ 0x22 # rest"] q split Cons show ?thesis
      by simp
  qed
qed


section \<open>Lexing what the serializer writes\<close>

lemma lex_ws: "list_all is_ws w \<Longrightarrow> lex (w @ rest) = lex rest"
  by (induction w) simp_all

lemma digit_not_other:
  assumes "is_digit c"
  shows "\<not> is_ws c" "c \<noteq> 0x7B" "c \<noteq> 0x7D" "c \<noteq> 0x5B" "c \<noteq> 0x5D" "c \<noteq> 0x3A" "c \<noteq> 0x2C"
    "c \<noteq> 0x22" "\<not> is_letter c"
  using assms by (auto simp: is_digit_def is_ws_def is_letter_def word_le_nat_alt)

lemma number_char_not_other:
  assumes "is_number_char c"
  shows "\<not> is_ws c" "c \<noteq> 0x7B" "c \<noteq> 0x7D" "c \<noteq> 0x5B" "c \<noteq> 0x5D" "c \<noteq> 0x3A" "c \<noteq> 0x2C"
    "c \<noteq> 0x22" "\<not> is_letter c \<or> c = 0x65"
  using assms digit_not_other [of c]
  by (auto simp: is_number_char_def is_ws_def is_letter_def)


lemma digit_number_char: "is_digit c \<Longrightarrow> is_number_char c"
  by (simp add: is_number_char_def)

lemma digits_number_chars: "list_all is_digit s \<Longrightarrow> list_all is_number_char s"
  by (induction s) (simp_all add: digit_number_char)

lemma span_all:
  assumes "list_all Q (takeWhile P s)" and "list_all Q (dropWhile P s)"
  shows "list_all Q s"
proof -
  have "list_all Q (takeWhile P s @ dropWhile P s)"
    using assms by (simp only: list_all_append simp_thms)
  then show ?thesis
    by (simp only: takeWhile_dropWhile_id)
qed

lemma valid_exp_chars: "valid_exp s \<Longrightarrow> list_all is_number_char s"
  by (auto simp: valid_exp_def is_number_char_def digits_number_chars
      split: list.splits if_splits)

lemma takeWhile_digits: "list_all is_number_char (takeWhile is_digit r)"
  by (induction r) (simp_all add: digit_number_char)

lemma valid_frac_chars: "valid_frac s \<Longrightarrow> list_all is_number_char s"
proof (cases s)
  case Nil
  then show ?thesis by simp
next
  case (Cons p r)
  assume v: "valid_frac s"
  show ?thesis
  proof (cases "p = 0x2E")
    case True
    with v Cons have "valid_exp (dropWhile is_digit r)"
      by (simp add: valid_frac_def)
    then have "list_all is_number_char r"
      using span_all [of is_number_char is_digit r] takeWhile_digits valid_exp_chars by blast
    with True Cons show ?thesis
      by (simp add: is_number_char_def)
  next
    case False
    with v Cons have "valid_exp s"
      by (simp add: valid_frac_def)
    then show ?thesis
      by (rule valid_exp_chars)
  qed
qed

lemma valid_int_chars: "valid_int s \<Longrightarrow> list_all is_number_char s"
proof (cases s)
  case Nil
  then show ?thesis by simp
next
  case (Cons d r)
  assume v: "valid_int s"
  show ?thesis
  proof (cases "d = 0x30")
    case True
    with v Cons show ?thesis
      by (simp add: valid_int_def valid_frac_chars is_number_char_def is_digit_def)
  next
    case False
    with v Cons have d: "0x31 \<le> d \<and> d \<le> 0x39" and f: "valid_frac (dropWhile is_digit r)"
      by (simp_all add: valid_int_def split: if_splits)
    from f have "list_all is_number_char r"
      using span_all [of is_number_char is_digit r] takeWhile_digits valid_frac_chars by blast
    moreover from d have "is_digit d"
      by (auto simp: is_digit_def word_le_nat_alt)
    ultimately show ?thesis
      using Cons by (simp add: digit_number_char)
  qed
qed

lemma valid_number_chars: "valid_number s \<Longrightarrow> s \<noteq> [] \<and> list_all is_number_char s"
proof (cases s)
  case Nil
  assume "valid_number s"
  with Nil show ?thesis
    by (simp add: valid_number_def)
next
  case (Cons m r)
  assume v: "valid_number s"
  show ?thesis
  proof (cases "m = 0x2D")
    case True
    with v Cons have "valid_int r"
      by (simp add: valid_number_def)
    then have "list_all is_number_char r"
      by (rule valid_int_chars)
    with True Cons show ?thesis
      by (simp add: is_number_char_def)
  next
    case False
    with v Cons have "valid_int s"
      by (simp add: valid_number_def)
    then have "list_all is_number_char s"
      by (rule valid_int_chars)
    with Cons show ?thesis
      by simp
  qed
qed

lemma span_delimited:
  assumes "list_all P cs" and "rest = [] \<or> \<not> P (hd rest)"
  shows "takeWhile P (cs @ rest) = cs" and "dropWhile P (cs @ rest) = rest"
proof -
  have "takeWhile P rest = []" "dropWhile P rest = rest"
    using assms(2) by (cases rest; simp)+
  with assms(1) show "takeWhile P (cs @ rest) = cs" and "dropWhile P (cs @ rest) = rest"
    by (simp_all add: list_all_iff takeWhile_append2 dropWhile_append2)
qed

lemma delimitedD:
  "delimited rest \<Longrightarrow> (rest = [] \<or> \<not> is_number_char (hd rest)) \<and> (rest = [] \<or> \<not> is_letter (hd rest))"
  by (cases rest) (simp_all add: delimited_def)

lemma lex_number:
  assumes "valid_number lit" and "delimited rest"
  shows "lex (lit @ rest) = map_option ((#) (TNumber lit)) (lex rest)"
proof -
  from assms(1) obtain c cs where lit: "lit = c # cs" and c: "is_number_char c"
    and cs: "list_all is_number_char cs"
    using valid_number_chars [of lit] by (cases lit) auto
  from cs assms(2) have "takeWhile is_number_char (cs @ rest) = cs"
    and "dropWhile is_number_char (cs @ rest) = rest"
    using span_delimited [of is_number_char cs rest] delimitedD by blast+
  with c assms(1) number_char_not_other [OF c] show ?thesis
    by (simp add: lit)
qed

lemma lex_quoted: "lex (QuoteJSONString s @ rest) = map_option ((#) (TString s)) (lex rest)"
  by (simp add: QuoteJSONString_def is_ws_def lex_string_quote)

lemma lex_keyword:
  assumes "delimited rest"
  shows "lex (str ''null'' @ rest) = map_option ((#) TNull) (lex rest)"
    and "lex (str ''true'' @ rest) = map_option ((#) TTrue) (lex rest)"
    and "lex (str ''false'' @ rest) = map_option ((#) TFalse) (lex rest)"
proof -
  have tw: "takeWhile is_letter rest = []" and dw: "dropWhile is_letter rest = rest"
    using assms by (cases rest; simp add: delimited_def)+
  have l: "is_letter 0x6E" "is_letter 0x75" "is_letter 0x6C" "is_letter 0x74" "is_letter 0x72"
    "is_letter 0x65" "is_letter 0x66" "is_letter 0x61" "is_letter 0x73"
    by (simp_all add: is_letter_def)
  have n: "\<not> is_ws 0x6E" "\<not> is_ws 0x74" "\<not> is_ws 0x66"
    "\<not> is_number_char 0x6E" "\<not> is_number_char 0x74" "\<not> is_number_char 0x66"
    by (simp_all add: is_ws_def is_number_char_def is_digit_def)
  show "lex (str ''null'' @ rest) = map_option ((#) TNull) (lex rest)"
    by (simp add: str_def l n tw dw keyword_def)
  show "lex (str ''true'' @ rest) = map_option ((#) TTrue) (lex rest)"
    by (simp add: str_def l n tw dw keyword_def)
  show "lex (str ''false'' @ rest) = map_option ((#) TFalse) (lex rest)"
    by (simp add: str_def l n tw dw keyword_def)
qed

lemma lex_punct:
  "lex (0x7B # rest) = map_option ((#) LBrace) (lex rest)"
  "lex (0x7D # rest) = map_option ((#) RBrace) (lex rest)"
  "lex (0x5B # rest) = map_option ((#) LBracket) (lex rest)"
  "lex (0x5D # rest) = map_option ((#) RBracket) (lex rest)"
  "lex (0x3A # rest) = map_option ((#) Colon) (lex rest)"
  "lex (0x2C # rest) = map_option ((#) Comma) (lex rest)"
  "lex (0x0A # rest) = lex rest"
  "lex (0x20 # rest) = lex rest"
  by (simp_all add: is_ws_def)

lemma delimited_sep: "delimited (0x2C # r)" "delimited (0x0A # r)"
  by (simp_all add: delimited_def is_number_char_def is_digit_def is_letter_def)

lemma ws_gap: "list_all is_ws ind \<Longrightarrow> list_all is_ws (ind @ gap)"
  by (simp add: gap_def is_ws_def)

lemma map_option_append_Nil: "map_option ((@) []) x = x"
  by (cases x) simp_all

lemma map_option_Cons_append:
  "map_option ((#) t) (map_option ((@) ts) x) = map_option ((@) (t # ts)) x"
  by (cases x) simp_all

lemma map_option_append_append:
  "map_option ((@) ts) (map_option ((@) us) x) = map_option ((@) (ts @ us)) x"
  by (cases x) simp_all

lemma map_option_append_Cons:
  "map_option ((@) ts) (map_option ((#) u) x) = map_option ((@) (ts @ [u])) x"
  by (cases x) simp_all

lemma lex_close:
  assumes "list_all is_ws ind" and "lex rest = Some ts"
  shows "lex ([0x0A] @ ind @ [0x5D] @ rest) = Some (RBracket # ts)"
    and "lex ([0x0A] @ ind @ [0x7D] @ rest) = Some (RBrace # ts)"
  using assms by (simp_all add: lex_punct lex_ws del: lex.simps)

lemma lex_next:
  assumes "list_all is_ws ind" and "lex rest = Some ts"
  shows "lex ([0x2C, 0x0A] @ ind @ rest) = Some (Comma # ts)"
  using assms by (simp add: lex_punct lex_ws del: lex.simps)

lemma lex_open:
  assumes "list_all is_ws ind" and "lex rest = Some ts"
  shows "lex ([0x5B, 0x0A] @ ind @ rest) = Some (LBracket # ts)"
    and "lex ([0x7B, 0x0A] @ ind @ rest) = Some (LBrace # ts)"
  using assms by (simp_all add: lex_punct lex_ws del: lex.simps)

lemma lex_key:
  assumes "lex rest = Some ts"
  shows "lex (QuoteJSONString k @ [0x3A, 0x20] @ rest) = Some (TString k # Colon # ts)"
  using assms by (simp add: lex_quoted lex_punct del: lex.simps)

lemma lex_ser:
  "restorable N T v \<Longrightarrow> list_all is_ws ind \<Longrightarrow> delimited rest \<Longrightarrow> lex rest = Some ts \<Longrightarrow>
     lex (serialize N ind v @ rest) = Some (toks N v @ ts)"
  "restorable_list N T xs \<Longrightarrow> list_all is_ws ind \<Longrightarrow> delimited rest \<Longrightarrow> lex rest = Some ts \<Longrightarrow>
     lex (serialize_elements N ind xs @ rest) = Some (toks_elems N xs @ ts)"
  "restorable_members N T kvs \<Longrightarrow> list_all is_ws ind \<Longrightarrow> delimited rest \<Longrightarrow>
     lex rest = Some ts \<Longrightarrow>
     lex (serialize_members N ind kvs @ rest) = Some (toks_members N kvs @ ts)"
proof (induction N ind v and N ind xs and N ind kvs arbitrary: rest ts and rest ts and rest ts
    rule: serialize_serialize_elements_serialize_members.induct)
  case (1 N ind)
  then show ?case
    by (simp add: lex_keyword del: lex.simps)
next
  case (2 N ind b)
  then show ?case
    by (simp add: lex_keyword del: lex.simps)
next
  case (3 N ind n)
  then show ?case
    by (cases n) (simp_all add: lex_number del: lex.simps)
next
  case (4 N ind s)
  then show ?case
    by (simp add: lex_quoted del: lex.simps)
next
  case (5 N ind xs)
  show ?case
  proof (cases "xs = []")
    case True
    with "5.prems"(4) show ?thesis
      by (simp add: str_def lex_punct del: lex.simps)
  next
    case False
    have ws: "list_all is_ws (ind @ gap)"
      using "5.prems"(2) by (rule ws_gap)
    have close: "lex ([0x0A] @ ind @ [0x5D] @ rest) = Some (RBracket # ts)"
      using "5.prems"(2,4) by (rule lex_close)
    have "lex (serialize_elements N (ind @ gap) xs @ [0x0A] @ ind @ [0x5D] @ rest) =
        Some (toks_elems N xs @ RBracket # ts)"
      using "5.IH" [OF False _ ws _ close] "5.prems"(1)
      by (simp add: delimited_sep del: lex.simps)
    then have "lex ([0x5B, 0x0A] @ (ind @ gap) @ serialize_elements N (ind @ gap) xs @ [0x0A] @ ind @ [0x5D] @ rest) =
        Some (LBracket # toks_elems N xs @ RBracket # ts)"
      by (rule lex_open(1) [OF ws])
    with False show ?thesis
      by (simp del: lex.simps)
  qed
next
  case (6 N ind kvs)
  show ?case
  proof (cases "kvs = []")
    case True
    with "6.prems"(4) show ?thesis
      by (simp add: str_def lex_punct del: lex.simps)
  next
    case False
    have ws: "list_all is_ws (ind @ gap)"
      using "6.prems"(2) by (rule ws_gap)
    have close: "lex ([0x0A] @ ind @ [0x7D] @ rest) = Some (RBrace # ts)"
      using "6.prems"(2,4) by (rule lex_close)
    have "lex (serialize_members N (ind @ gap) kvs @ [0x0A] @ ind @ [0x7D] @ rest) =
        Some (toks_members N kvs @ RBrace # ts)"
      using "6.IH" [OF False _ ws _ close] "6.prems"(1)
      by (simp add: delimited_sep del: lex.simps)
    then have "lex ([0x7B, 0x0A] @ (ind @ gap) @ serialize_members N (ind @ gap) kvs @ [0x0A] @ ind @ [0x7D] @ rest) =
        Some (LBrace # toks_members N kvs @ RBrace # ts)"
      by (rule lex_open(2) [OF ws])
    with False show ?thesis
      by (simp del: lex.simps)
  qed
next
  case (7 N ind)
  then show ?case
    by (simp del: lex.simps)
next
  case (8 N ind x xs)
  show ?case
  proof (cases "xs = []")
    case True
    with "8.IH"(1) [of rest ts] "8.prems" show ?thesis
      by (simp del: lex.simps)
  next
    case False
    have "lex (serialize_elements N ind xs @ rest) = Some (toks_elems N xs @ ts)"
      using "8.IH"(2) [OF False, of rest ts] "8.prems" by simp
    then have "lex ([0x2C, 0x0A] @ ind @ serialize_elements N ind xs @ rest) =
        Some (Comma # toks_elems N xs @ ts)"
      by (rule lex_next [OF "8.prems"(2)])
    then have "lex (serialize N ind x @ [0x2C, 0x0A] @ ind @ serialize_elements N ind xs @ rest) =
        Some (toks N x @ Comma # toks_elems N xs @ ts)"
      using "8.IH"(1) [of "[0x2C, 0x0A] @ ind @ serialize_elements N ind xs @ rest"] "8.prems"
      by (simp add: delimited_sep del: lex.simps)
    with False show ?thesis
      by (simp del: lex.simps)
  qed
next
  case (9 N ind)
  then show ?case
    by (simp del: lex.simps)
next
  case (10 N ind k v kvs)
  show ?case
  proof (cases "kvs = []")
    case True
    have "lex (serialize N ind v @ rest) = Some (toks N v @ ts)"
      using "10.IH"(1) [of rest ts] "10.prems" by simp
    then have "lex (QuoteJSONString k @ [0x3A, 0x20] @ serialize N ind v @ rest) =
        Some (TString k # Colon # toks N v @ ts)"
      by (rule lex_key)
    with True show ?thesis
      by (simp del: lex.simps)
  next
    case False
    have "lex (serialize_members N ind kvs @ rest) = Some (toks_members N kvs @ ts)"
      using "10.IH"(2) [OF False, of rest ts] "10.prems" by simp
    then have "lex ([0x2C, 0x0A] @ ind @ serialize_members N ind kvs @ rest) =
        Some (Comma # toks_members N kvs @ ts)"
      by (rule lex_next [OF "10.prems"(2)])
    then have "lex (serialize N ind v @ [0x2C, 0x0A] @ ind @ serialize_members N ind kvs @ rest) =
        Some (toks N v @ Comma # toks_members N kvs @ ts)"
      using "10.IH"(1) [of "[0x2C, 0x0A] @ ind @ serialize_members N ind kvs @ rest"] "10.prems"
      by (simp add: delimited_sep del: lex.simps)
    then have "lex (QuoteJSONString k @ [0x3A, 0x20] @ serialize N ind v @ [0x2C, 0x0A] @ ind @
          serialize_members N ind kvs @ rest) =
        Some (TString k # Colon # toks N v @ Comma # toks_members N kvs @ ts)"
      by (rule lex_key)
    with False show ?thesis
      by (simp del: lex.simps)
  qed
qed

section \<open>Property order\<close>

lemma put_prop_new: "k \<notin> fst ` set kvs \<Longrightarrow> put_prop k v kvs = kvs @ [(k, v)]"
  by (induction kvs) auto

lemma insert_index_end:
  "list_all (\<lambda>k'. is_array_index k' \<and> undec k' < undec k) (map fst kvs) \<Longrightarrow>
   insert_index k v kvs = kvs @ [(k, v)]"
  by (induction kvs) auto

lemma js_ordered_snoc:
  assumes "js_ordered (ks @ [k])"
  shows "js_ordered ks" and "k \<notin> set ks"
    and "is_array_index k \<Longrightarrow> list_all (\<lambda>k'. is_array_index k' \<and> undec k' < undec k) ks"
proof -
  from assms have d: "distinct (ks @ [k])"
    and s: "sorted_wrt (<) (map undec (takeWhile is_array_index (ks @ [k])))"
    and r: "list_all (\<lambda>k. \<not> is_array_index k) (dropWhile is_array_index (ks @ [k]))"
    by (simp_all add: js_ordered_def)
  from d show "k \<notin> set ks"
    by simp
  show "js_ordered ks"
  proof (cases "list_all is_array_index ks")
    case True
    then have "takeWhile is_array_index (ks @ [k]) = ks @ takeWhile is_array_index [k]"
      and tk: "takeWhile is_array_index ks = ks" and dk: "dropWhile is_array_index ks = []"
      by (simp_all add: list_all_iff takeWhile_append2)
    with s have "sorted_wrt (<) (map undec ks)"
      by (simp add: sorted_wrt_append)
    moreover from d have "distinct ks"
      by simp
    ultimately show ?thesis
      unfolding js_ordered_def tk dk by simp
  next
    case False
    then obtain x where x: "x \<in> set ks" "\<not> is_array_index x"
      by (auto simp: list_all_iff)
    then have "takeWhile is_array_index (ks @ [k]) = takeWhile is_array_index ks"
      and "dropWhile is_array_index (ks @ [k]) = dropWhile is_array_index ks @ [k]"
      by (simp_all add: takeWhile_append1 dropWhile_append1)
    with d s r show ?thesis
      by (simp add: js_ordered_def)
  qed
  show "list_all (\<lambda>k'. is_array_index k' \<and> undec k' < undec k) ks" if k: "is_array_index k"
  proof (cases "list_all is_array_index ks")
    case True
    then have "takeWhile is_array_index (ks @ [k]) = ks @ [k]"
      using k by (simp add: list_all_iff takeWhile_append2)
    with s have "\<forall>x \<in> set ks. undec x < undec k"
      by (simp add: sorted_wrt_append)
    with True show ?thesis
      by (simp add: list_all_iff)
  next
    case False
    then obtain x where x: "x \<in> set ks" "\<not> is_array_index x"
      by (auto simp: list_all_iff)
    then have "dropWhile is_array_index (ks @ [k]) = dropWhile is_array_index ks @ [k]"
      by (simp add: dropWhile_append1)
    with r k show ?thesis
      by simp
  qed
qed

lemma js_ordered_prefix: "js_ordered (ks @ ks') \<Longrightarrow> js_ordered ks"
proof (induction ks' rule: rev_induct)
  case Nil
  then show ?case by simp
next
  case (snoc k ks')
  from snoc.prems have "js_ordered ((ks @ ks') @ [k])"
    by simp
  then have "js_ordered (ks @ ks')"
    by (rule js_ordered_snoc(1))
  then show ?case
    by (rule snoc.IH)
qed

lemma CreateDataProperty_snoc:
  assumes "js_ordered (map fst obj @ [k])"
  shows "CreateDataProperty k v obj = obj @ [(k, v)]"
proof -
  from assms have new: "k \<notin> fst ` set obj"
    using js_ordered_snoc(2) [of "map fst obj" k] by simp
  show ?thesis
  proof (cases "is_array_index k")
    case True
    with assms have "list_all (\<lambda>k'. is_array_index k' \<and> undec k' < undec k) (map fst obj)"
      by (rule js_ordered_snoc(3))
    with True new show ?thesis
      by (simp add: CreateDataProperty_def insert_index_end)
  next
    case False
    with new show ?thesis
      by (simp add: CreateDataProperty_def put_prop_new)
  qed
qed

section \<open>Parsing the tokens of a value\<close>

lemma toks_start: "\<exists>t r. toks N v = t # r \<and> t \<noteq> RBracket \<and> t \<noteq> RBrace"
  by (cases v) (auto split: jsnumber.splits)

lemma parse_value_open:
  assumes "t \<noteq> RBracket"
  shows "parse_value T (Suc f) (LBracket # t # r) =
     map_option (\<lambda>(xs, r'). (JArr xs, r')) (parse_elements T f (t # r))"
  using assms by (cases t) simp_all

lemma parse_value_open_obj:
  shows "parse_value T (Suc f) (LBrace # TString k # r) =
     map_option (\<lambda>(kvs, r'). (JObj kvs, r')) (parse_members T f [] (TString k # r))"
  by simp

lemma parse_toks:
  "restorable N T v \<Longrightarrow> length (toks N v) \<le> f \<Longrightarrow>
     parse_value T f (toks N v @ ts) = Some (v, ts)"
  "xs \<noteq> [] \<Longrightarrow> restorable_list N T xs \<Longrightarrow> length (toks_elems N xs) < f \<Longrightarrow>
     parse_elements T f (toks_elems N xs @ RBracket # ts) = Some (xs, ts)"
  "kvs \<noteq> [] \<Longrightarrow> restorable_members N T kvs \<Longrightarrow> js_ordered (map fst (obj @ kvs)) \<Longrightarrow>
     length (toks_members N kvs) < f \<Longrightarrow>
     parse_members T f obj (toks_members N kvs @ RBrace # ts) = Some (obj @ kvs, ts)"
proof (induction N v and N xs and N kvs arbitrary: f ts and f ts and f ts obj
    rule: toks_toks_elems_toks_members.induct)
  case (1 N)
  then show ?case by (cases f) simp_all
next
  case (2 N b)
  then show ?case by (cases f) simp_all
next
  case (3 N n)
  then show ?case by (cases f; cases n) simp_all
next
  case (4 N s)
  then show ?case by (cases f) simp_all
next
  case (5 N xs)
  from "5.prems"(2) obtain f' where f: "f = Suc f'" and len: "length (toks_elems N xs) < f'"
    by (cases f) auto
  show ?case
  proof (cases xs)
    case Nil
    then show ?thesis
      by (simp add: f)
  next
    case (Cons x xs')
    from toks_start [of N x] obtain t r where t: "toks N x = t # r" "t \<noteq> RBracket"
      by blast
    then obtain r' where r': "toks_elems N xs @ RBracket # ts = t # r'"
      using Cons by simp
    have "parse_elements T f' (toks_elems N xs @ RBracket # ts) = Some (xs, ts)"
      using "5.IH" [of f' ts] "5.prems"(1) len Cons by simp
    then have "parse_value T (Suc f') (LBracket # toks_elems N xs @ RBracket # ts) =
        Some (JArr xs, ts)"
      unfolding r' using parse_value_open [OF t(2), of T f' r'] by simp
    then show ?thesis
      by (simp add: f)
  qed
next
  case (6 N kvs)
  from "6.prems"(2) obtain f' where f: "f = Suc f'" and len: "length (toks_members N kvs) < f'"
    by (cases f) auto
  show ?case
  proof (cases kvs)
    case Nil
    then show ?thesis
      by (simp add: f)
  next
    case (Cons kv kvs')
    obtain k v where kv: "kv = (k, v)"
      by (cases kv)
    then obtain r' where r': "toks_members N kvs @ RBrace # ts = TString k # r'"
      using Cons by simp
    have "parse_members T f' [] (toks_members N kvs @ RBrace # ts) = Some ([] @ kvs, ts)"
      using "6.IH" [of "[]" f' ts] "6.prems"(1) len Cons by simp
    then have "parse_value T (Suc f') (LBrace # toks_members N kvs @ RBrace # ts) =
        Some (JObj kvs, ts)"
      unfolding r' using parse_value_open_obj [of T f' k r'] by simp
    then show ?thesis
      by (simp add: f)
  qed
next
  case (7 N)
  then show ?case by simp
next
  case (8 N x xs)
  from "8.prems"(3) obtain f' where f: "f = Suc f'"
    by (cases f) auto
  show ?case
  proof (cases "xs = []")
    case True
    have "parse_value T f' (toks N x @ RBracket # ts) = Some (x, RBracket # ts)"
      using "8.IH"(1) [of f' "RBracket # ts"] "8.prems" True by (simp add: f)
    with True show ?thesis
      by (simp add: f)
  next
    case False
    have "parse_value T f' (toks N x @ Comma # toks_elems N xs @ RBracket # ts) =
        Some (x, Comma # toks_elems N xs @ RBracket # ts)"
      using "8.IH"(1) [of f' "Comma # toks_elems N xs @ RBracket # ts"] "8.prems" False
      by (simp add: f)
    moreover have "parse_elements T f' (toks_elems N xs @ RBracket # ts) = Some (xs, ts)"
      using "8.IH"(2) [OF False False, of f' ts] "8.prems" False by (simp add: f)
    ultimately show ?thesis
      using False by (simp add: f)
  qed
next
  case (9 N)
  then show ?case by simp
next
  case (10 N k v kvs)
  from "10.prems"(4) obtain f' where f: "f = Suc f'"
    by (cases f) auto
  have "js_ordered ((map fst obj @ [k]) @ map fst kvs)"
    using "10.prems"(3) by simp
  then have "js_ordered (map fst obj @ [k])"
    by (rule js_ordered_prefix)
  then have create: "CreateDataProperty k v obj = obj @ [(k, v)]"
    by (rule CreateDataProperty_snoc)
  show ?case
  proof (cases "kvs = []")
    case True
    have "parse_value T f' (toks N v @ RBrace # ts) = Some (v, RBrace # ts)"
      using "10.IH"(1) [of f' "RBrace # ts"] "10.prems" True by (simp add: f)
    with True create show ?thesis
      by (simp add: f)
  next
    case False
    have "parse_value T f' (toks N v @ Comma # toks_members N kvs @ RBrace # ts) =
        Some (v, Comma # toks_members N kvs @ RBrace # ts)"
      using "10.IH"(1) [of f' "Comma # toks_members N kvs @ RBrace # ts"] "10.prems" False
      by (simp add: f)
    moreover have "parse_members T f' (obj @ [(k, v)]) (toks_members N kvs @ RBrace # ts) =
        Some ((obj @ [(k, v)]) @ kvs, ts)"
      using "10.IH"(2) [OF False False, of "obj @ [(k, v)]" f' ts] "10.prems" False
      by (simp add: f)
    ultimately show ?thesis
      using False create by (simp add: f)
  qed
qed

lemma parse_stringify:
  assumes "restorable N T v"
  shows "JSON_parse T (JSON_stringify N v) = Inr v"
proof -
  have "lex (serialize N [] v @ []) = Some (toks N v @ [])"
    using assms by (intro lex_ser(1) [of N T]) (simp_all add: delimited_def)
  moreover have "parse_value T (length (toks N v)) (toks N v @ []) = Some (v, [])"
    using assms by (intro parse_toks(1) [of N T]) simp_all
  ultimately show ?thesis
    by (simp add: JSON_parse_def JSON_stringify_def)
qed

section \<open>States that the serializer and the parser carry\<close>

lemma restorable_list_iff: "restorable_list N T xs \<longleftrightarrow> (\<forall>x \<in> set xs. restorable N T x)"
  by (induction xs) auto

lemma restorable_members_iff: "restorable_members N T kvs \<longleftrightarrow> (\<forall>(k, v) \<in> set kvs. restorable N T v)"
  by (induction kvs) auto

lemma restorable_members_put_prop:
  "restorable_members N T kvs \<Longrightarrow> restorable N T v \<Longrightarrow> restorable_members N T (put_prop k v kvs)"
  by (induction kvs) auto

lemma restorable_members_lookup:
  "restorable_members N T kvs \<Longrightarrow> map_of kvs k = Some v \<Longrightarrow> restorable N T v"
  by (induction kvs) (auto split: if_splits)

lemma js_ordered_intro:
  assumes "distinct (a @ b)" and "list_all is_array_index a"
    and "sorted_wrt (<) (map undec a)" and "list_all (\<lambda>k. \<not> is_array_index k) b"
  shows "js_ordered (a @ b)"
proof -
  have "b = [] \<or> \<not> is_array_index (hd b)"
    using assms(4) by (cases b) simp_all
  with assms(2) have "takeWhile is_array_index (a @ b) = a"
    and "dropWhile is_array_index (a @ b) = b"
    by (rule span_delimited)+
  with assms show ?thesis
    by (simp add: js_ordered_def)
qed

lemma js_ordered_split:
  assumes "js_ordered ks"
  shows "\<exists>a b. ks = a @ b \<and> list_all is_array_index a \<and> sorted_wrt (<) (map undec a) \<and>
           list_all (\<lambda>k. \<not> is_array_index k) b"
proof -
  have "ks = takeWhile is_array_index ks @ dropWhile is_array_index ks"
    by simp
  moreover have "list_all is_array_index (takeWhile is_array_index ks)"
    by (induction ks) simp_all
  ultimately show ?thesis
    using assms unfolding js_ordered_def by blast
qed

lemma js_ordered_add:
  assumes "js_ordered ks" and "k \<notin> set ks" and "\<not> is_array_index k"
  shows "js_ordered (ks @ [k])"
proof -
  from js_ordered_split [OF assms(1)] obtain a b where ks: "ks = a @ b"
    and a: "list_all is_array_index a" "sorted_wrt (<) (map undec a)"
    and b: "list_all (\<lambda>k. \<not> is_array_index k) b"
    by blast
  have "distinct (a @ b @ [k])"
    using assms(1,2) ks by (simp add: js_ordered_def)
  moreover have "list_all (\<lambda>k. \<not> is_array_index k) (b @ [k])"
    using b assms(3) by simp
  ultimately have "js_ordered (a @ b @ [k])"
    using a by (intro js_ordered_intro)
  then show ?thesis
    by (simp add: ks)
qed

lemma id_not_index: "\<not> is_array_index (str ''id'')"
  by (simp add: is_array_index_def str_def undec_def digit_val_def dec.simps digit_def)

lemma array_index_dec: "is_array_index (dec i) \<longleftrightarrow> i < 4294967295"
  by (simp add: is_array_index_def undec_dec)

lemma keys_indexed: "map fst (indexed i xs) = map dec [i ..< i + length xs]"
proof (induction xs arbitrary: i)
  case Nil
  then show ?case by simp
next
  case (Cons x xs)
  have "[i ..< i + length (x # xs)] = i # [Suc i ..< Suc i + length xs]"
    by (simp add: upt_rec)
  with Cons.IH [of "Suc i"] show ?case
    by simp
qed

lemma js_ordered_dec: "js_ordered (map dec [0 ..< n])"
proof -
  define m where "m = min n 4294967295"
  have split: "[0 ..< n] = [0 ..< m] @ [m ..< n]"
    unfolding m_def by (metis le_add_diff_inverse min.cobounded1 upt_add_eq_append zero_le)
  have "distinct (map dec [0 ..< n])"
    by (simp add: distinct_map inj_on_def dec_inj)
  then have "distinct (map dec [0 ..< m] @ map dec [m ..< n])"
    by (simp add: split)
  moreover have "list_all is_array_index (map dec [0 ..< m])"
    by (simp add: list_all_iff array_index_dec m_def)
  moreover have "map undec (map dec [0 ..< m]) = [0 ..< m]"
    by (simp add: undec_dec comp_def)
  then have "sorted_wrt (<) (map undec (map dec [0 ..< m]))"
    by (simp only: sorted_wrt_upt)
  moreover have "list_all (\<lambda>k. \<not> is_array_index k) (map dec [m ..< n])"
    by (auto simp: list_all_iff array_index_dec m_def)
  ultimately have "js_ordered (map dec [0 ..< m] @ map dec [m ..< n])"
    by (rule js_ordered_intro)
  then show ?thesis
    by (simp add: split)
qed

lemma values_indexed: "snd ` set (indexed i xs) = set xs"
  by (induction xs arbitrary: i) auto

lemma restorable_spread:
  assumes "restorable N T r"
  shows "js_ordered (map fst (spread r))" and "restorable_members N T (spread r)"
proof -
  show "js_ordered (map fst (spread r))"
    using assms js_ordered_dec
    by (cases r) (simp_all add: keys_indexed js_ordered_def)
  show "restorable_members N T (spread r)"
  proof (cases r)
    case (JArr xs)
    with assms have "\<forall>x \<in> set xs. restorable N T x"
      by (simp add: restorable_list_iff)
    then have "\<forall>kv \<in> set (indexed 0 xs). restorable N T (snd kv)"
      using values_indexed [of 0 xs] by blast
    with JArr show ?thesis
      by (auto simp: restorable_members_iff)
  next
    case (JStr s)
    have "\<forall>x \<in> set (map (\<lambda>c. JStr [c]) s). restorable N T x"
      by auto
    then have "\<forall>kv \<in> set (indexed 0 (map (\<lambda>c. JStr [c]) s)). restorable N T (snd kv)"
      using values_indexed [of 0 "map (\<lambda>c. JStr [c]) s"] by blast
    with JStr show ?thesis
      by (auto simp: restorable_members_iff)
  qed (use assms in simp_all)
qed

lemma restorable_with_id:
  assumes "restorable N T r"
  shows "restorable N T (with_id r i)"
proof -
  let ?kvs = "spread r"
  have ord: "js_ordered (map fst ?kvs)" and mem: "restorable_members N T ?kvs"
    using assms by (rule restorable_spread)+
  have "js_ordered (map fst (put_prop (str ''id'') (JStr (item_id i)) ?kvs))"
  proof (cases "str ''id'' \<in> fst ` set ?kvs")
    case True
    with ord show ?thesis
      by (simp add: put_prop_keys)
  next
    case False
    then have "js_ordered (map fst ?kvs @ [str ''id''])"
      using ord id_not_index by (intro js_ordered_add) simp_all
    with False show ?thesis
      by (simp add: put_prop_keys)
  qed
  moreover have "restorable_members N T (put_prop (str ''id'') (JStr (item_id i)) ?kvs)"
    using mem by (rule restorable_members_put_prop) simp
  ultimately show ?thesis
    by (simp add: with_id_def)
qed

lemma restorable_list_map_index: "restorable_list N T rs \<Longrightarrow> restorable_list N T (map_index with_id i rs)"
  by (induction rs arbitrary: i) (simp_all add: restorable_with_id)

lemma bucket_key_not_index: "\<not> is_array_index (bucket_key b)"
  by (cases b)
    (simp_all add: is_array_index_def str_def undec_def digit_val_def dec.simps digit_def)

lemma bucket_keys_ordered:
  "js_ordered [str ''untriaged'', str ''issues'', str ''falsePositives'']"
proof -
  have "js_ordered ([] @ [bucket_key Untriaged, bucket_key Issues, bucket_key FalsePositives])"
    by (rule js_ordered_intro) (simp_all add: bucket_key_not_index del: bucket_key.simps)
  then show ?thesis
    by simp
qed

lemma restorable_constructor:
  assumes "restorable_list N T rs"
  shows "restorable N T (constructor_results rs)"
  using assms bucket_keys_ordered
  by (simp add: constructor_results_def restorable_list_map_index)

lemma restorable_get_array:
  assumes "restorable N T s" and "get_array s k = Inr xs"
  shows "restorable_list N T xs"
proof -
  from get_array_JObj [OF assms(2)] obtain kvs where s: "s = JObj kvs"
    and k: "map_of kvs k = Some (JArr xs)"
    by blast
  from assms(1) s have "restorable_members N T kvs"
    by simp
  then have "restorable N T (JArr xs)"
    using k by (rule restorable_members_lookup)
  then show ?thesis
    by simp
qed

lemma restorable_set_array:
  assumes "restorable N T s" and "get_array s k = Inr ys" and "restorable_list N T xs"
  shows "restorable N T (set_array s k xs)"
proof -
  from get_array_JObj [OF assms(2)] obtain kvs where s: "s = JObj kvs"
    and k: "map_of kvs k = Some (JArr ys)"
    by blast
  from k have "k \<in> fst ` set kvs"
    by (metis map_of_eq_None_iff option.distinct(1))
  then have "map fst (put_prop k (JArr xs) kvs) = map fst kvs"
    by (simp add: put_prop_keys)
  moreover from assms(1,3) s have "restorable_members N T (put_prop k (JArr xs) kvs)"
    by (intro restorable_members_put_prop) simp_all
  ultimately show ?thesis
    using assms(1) s by simp
qed

lemma restorable_handleTriage:
  assumes "restorable N T s"
  shows "restorable N T (results_after (handleTriage s id' from to))"
proof (cases "get_array s (bucket_key from)")
  case (Inl e)
  with assms show ?thesis
    by (simp add: handleTriage_def)
next
  case (Inr xs)
  note gf = this
  have xs: "\<forall>x \<in> set xs. restorable N T x"
    using restorable_get_array [OF assms gf] by (simp add: restorable_list_iff)
  show ?thesis
  proof (cases "findIndex (id_is id') xs")
    case (Inl e)
    with gf assms show ?thesis
      by (simp add: handleTriage_def)
  next
    case (Inr found)
    show ?thesis
    proof (cases found)
      case None
      with gf Inr assms show ?thesis
        by (simp add: handleTriage_def)
    next
      case (Some i)
      with Inr have fi: "findIndex (id_is id') xs = Inr (Some i)"
        by simp
      then have i: "i < length xs"
        by (simp add: findIndex_Some)
      define s1 where "s1 = set_array s (bucket_key from) (take i xs @ drop (Suc i) xs)"
      have "\<forall>x \<in> set (take i xs @ drop (Suc i) xs). restorable N T x"
        using xs by (auto dest: in_set_takeD in_set_dropD)
      then have ok1: "restorable N T s1"
        unfolding s1_def using assms gf by (intro restorable_set_array) (simp_all add: restorable_list_iff)
      show ?thesis
      proof (cases "get_array s1 (bucket_key to)")
        case (Inl e)
        with gf fi have "handleTriage s id' from to = Threw e s1"
          by (simp add: handleTriage_def s1_def Let_def)
        with ok1 show ?thesis
          by simp
      next
        case (Inr ys)
        have "\<forall>x \<in> set ys. restorable N T x"
          using restorable_get_array [OF ok1 Inr] by (simp add: restorable_list_iff)
        with xs i have "restorable_list N T (ys @ [xs ! i])"
          by (simp add: restorable_list_iff)
        with ok1 Inr have "restorable N T (set_array s1 (bucket_key to) (ys @ [xs ! i]))"
          by (intro restorable_set_array)
        moreover from gf fi Inr have "handleTriage s id' from to =
            Returned (set_array s1 (bucket_key to) (ys @ [xs ! i]))
              (Some (set_array s1 (bucket_key to) (ys @ [xs ! i])))"
          by (simp add: handleTriage_def s1_def Let_def)
        ultimately show ?thesis
          by simp
      qed
    qed
  qed
qed

lemma restorable_handleTriages:
  "restorable N T s \<Longrightarrow> restorable N T (handleTriages s ms)"
proof (induction ms arbitrary: s)
  case Nil
  then show ?case by simp
next
  case (Cons m ms)
  obtain id' "from" to where m: "m = (id', from, to)"
    by (cases m) auto
  from Cons.prems have "restorable N T (results_after (handleTriage s id' from to))"
    by (rule restorable_handleTriage)
  then show ?case
    using Cons.IH by (simp add: m)
qed

section \<open>Saving and loading\<close>

lemma example_not_index:
  "\<not> is_array_index (str ''check_id'')" "\<not> is_array_index (str ''path'')"
  "\<not> is_array_index (str ''start'')" "\<not> is_array_index (str ''line'')"
  "\<not> is_array_index (str ''col'')" "\<not> is_array_index (str ''results'')"
  by (simp_all add: is_array_index_def str_def undec_def digit_val_def dec.simps digit_def)

lemma example_numbers:
  "valid_number (example_toString 1)" "example_toNumber (example_toString 1) = Finite 1"
  "valid_number (example_toString 3)" "example_toNumber (example_toString 3) = Finite 3"
  "valid_number (example_toString 5)" "example_toNumber (example_toString 5) = Finite 5"
  "valid_number (example_toString 8)" "example_toNumber (example_toString 8) = Finite 8"
  by (simp_all add: example_toString_def example_toNumber_def dec.simps digit_def valid_number_def
      valid_int_def valid_frac_def valid_exp_def is_digit_def undec_def digit_val_def)

lemma example_results_restorable:
  "restorable_list example_toString example_toNumber [result_a, result_b]"
  using example_numbers
  by (simp add: result_a_def result_b_def js_ordered_def
      example_not_index [unfolded str_def, simplified] str_def)

lemma parse_overflow_report:
  "JSON_parse example_toNumber overflow_report =
     Inr (JObj [(str ''results'', JArr [overflow_result])])"
  by (simp add: overflow_report_def JSON_parse_def str_def is_ws_def is_number_char_def
      is_digit_def is_letter_def valid_number_def valid_int_def valid_frac_def valid_exp_def
      example_toNumber_def overflow_result_def CreateDataProperty_def simple_escape_def)

text \<open>
  C2, as amended. For every state reached from the constructor by a sequence of moves,
  if the elements of the ingested array are restorable (their objects are in property
  order, as the values of a running program are, and each of their numbers is finite
  and is read back from its decimal form), then \<^verbatim>\<open>JSON.parse\<close> gives the state back
  from the text \<^verbatim>\<open>JSON.stringify\<close> writes for it, and \<^verbatim>\<open>_loadProgress\<close> on the file
  that \<^verbatim>\<open>_saveProgress\<close> wrote makes it the state of the panel again: the same
  buckets, findings and properties in the same order. Here \<open>data\<close>, the payload of the
  \<^verbatim>\<open>save\<close> message, is the state: the display sends back what the last
  \<^verbatim>\<open>updateView\<close> brought it. The file is kept as text; its bytes are the UTF-8
  encoding, which loses nothing of a text without a lone surrogate, and the serializer
  escapes every lone surrogate.
\<close>

theorem save_then_load_restores:
  assumes "restorable_list N T rs" and "writeError h u = None"
  shows "JSON_parse T (JSON_stringify N (handleTriages (constructor_results rs) ms)) =
           Inr (handleTriages (constructor_results rs) ms) \<and>
         currentPanel
           (loadProgress (JSON_parse T) (Inr (Some (u # us)))
              (saveProgress (JSON_stringify N) (Inr (Some u))
                 (handleTriages (constructor_results rs) ms) h)) =
           Some (handleTriages (constructor_results rs) ms)"
proof -
  let ?s = "handleTriages (constructor_results rs) ms"
  have "restorable N T ?s"
    using assms(1) by (intro restorable_handleTriages restorable_constructor)
  then have rt: "JSON_parse T (JSON_stringify N ?s) = Inr ?s"
    by (rule parse_stringify)
  then show ?thesis
    using assms(2)
    by (simp add: saveProgress_def writeFile_def loadProgress_def showInformationMessage_def
        postMessage_def)
qed

theorem save_then_load_restores_witness:
  "restorable_list example_toString example_toNumber [result_a, result_b] \<and>
   writeError busy_host report_uri = None \<and>
   currentPanel
     (loadProgress (JSON_parse example_toNumber) (Inr (Some [report_uri]))
        (saveProgress (JSON_stringify example_toString) (Inr (Some report_uri))
           (handleTriages fresh_state [(str ''item-0'', Untriaged, Issues)]) busy_host)) =
     Some triaged_state"
proof -
  have w: "writeError busy_host report_uri = None"
    by (simp add: busy_host_def report_uri_def missing_uri_def str_def)
  have "handleTriages fresh_state [(str ''item-0'', Untriaged, Issues)] = triaged_state"
    by (simp add: triaged_state_def)
  with save_then_load_restores [OF example_results_restorable w,
      of "[(str ''item-0'', Untriaged, Issues)]" "[]", folded fresh_state_def]
    example_results_restorable w
  show ?thesis
    by simp
qed

text \<open>
  The claim as it is stated fails for a state with an infinite number. The report
  \<^verbatim>\<open>{"results": [{"line": 1e999}]}\<close> is ingested with the line \<^verbatim>\<open>Infinity\<close>; saved,
  the line is written as \<^verbatim>\<open>null\<close>, and the loaded state has \<^verbatim>\<open>null\<close> in its place.
\<close>

theorem infinity_is_not_restored:
  "currentPanel (openResults (JSON_parse example_toNumber) (Some [overflow_uri]) busy_host) =
     Some (constructor_results [overflow_result]) \<and>
   currentPanel
     (loadProgress (JSON_parse example_toNumber) (Inr (Some [report_uri]))
        (saveProgress (JSON_stringify example_toString) (Inr (Some report_uri))
           (constructor_results [overflow_result]) busy_host)) =
     Some (constructor_results [overflow_read_back]) \<and>
   currentPanel
     (loadProgress (JSON_parse example_toNumber) (Inr (Some [report_uri]))
        (saveProgress (JSON_stringify example_toString) (Inr (Some report_uri))
           (constructor_results [overflow_result]) busy_host)) \<noteq>
     Some (constructor_results [overflow_result])"
proof -
  have rd: "readFile busy_host overflow_uri = Inr overflow_report"
    by (simp add: busy_host_def report_uri_def overflow_uri_def str_def)
  have "results_array (JObj [(str ''results'', JArr [overflow_result])]) = Some [overflow_result]"
    by (simp add: results_array_def)
  with rd have opened:
    "currentPanel (openResults (JSON_parse example_toNumber) (Some [overflow_uri]) busy_host) =
     Some (constructor_results [overflow_result])"
    by (simp add: openResults_def parse_overflow_report createOrShow_def)
  have same: "JSON_stringify example_toString (constructor_results [overflow_result]) =
      JSON_stringify example_toString (constructor_results [overflow_read_back])"
    by (simp add: JSON_stringify_def constructor_results_def with_id_def overflow_result_def
        overflow_read_back_def)
  have "restorable example_toString example_toNumber overflow_read_back"
    using example_not_index by (simp add: overflow_read_back_def js_ordered_def)
  then have "restorable example_toString example_toNumber (constructor_results [overflow_read_back])"
    by (intro restorable_constructor) simp
  then have "JSON_parse example_toNumber
      (JSON_stringify example_toString (constructor_results [overflow_read_back])) =
      Inr (constructor_results [overflow_read_back])"
    by (rule parse_stringify)
  with same have reread: "JSON_parse example_toNumber
      (JSON_stringify example_toString (constructor_results [overflow_result])) =
      Inr (constructor_results [overflow_read_back])"
    by simp
  have w: "writeError busy_host report_uri = None"
    by (simp add: busy_host_def report_uri_def missing_uri_def str_def)
  have loaded: "currentPanel
     (loadProgress (JSON_parse example_toNumber) (Inr (Some [report_uri]))
        (saveProgress (JSON_stringify example_toString) (Inr (Some report_uri))
           (constructor_results [overflow_result]) busy_host)) =
     Some (constructor_results [overflow_read_back])"
    using w reread
    by (simp add: saveProgress_def writeFile_def loadProgress_def showInformationMessage_def
        postMessage_def)
  have "constructor_results [overflow_read_back] \<noteq> constructor_results [overflow_result]"
    by (simp add: constructor_results_def with_id_def overflow_result_def overflow_read_back_def
        str_def)
  with opened loaded show ?thesis
    by simp
qed

end
